theory Spec2Isabelle
  imports Main "HOL-Library.Sublist"
begin

section \<open>git-fastcdc: a shallow embedding of \<open>git_fastcdc.py\<close>\<close>

text \<open>
  The program is a long-running git filter that replaces large files by a manifest of
  content-defined chunks. This theory embeds its functions one by one, with the names
  of the source, and settles the properties stated for it.

  Conventions of the embedding.
  \<^item> \<open>bytes\<close> is a list of bytes (\<open>char list\<close>).
  \<^item> A Python \<open>str\<close> is a list of code points, each code point written as its UTF-8
    encoding (one to four bytes). Slicing, \<open>strip\<close>, \<open>splitlines\<close> and \<open>partition\<close>
    then work per code point as in Python, \<open>encode\<close> is concatenation and \<open>decode\<close>
    is the grouping of a byte string into code points, refusing ill-formed input.
  \<^item> An exception is a value \<open>Inl e\<close>; a function with effects takes the state and
    returns it with its result, also when it raises (what was written stays written).
  \<^item> Subprocess calls of git and the chunker of the \<open>fastcdc\<close> package are not part
    of the source: they are fields of the record \<open>env\<close>. The local configuration that
    \<open>git config\<close> edits is part of the state of \<open>install\<close>.
  \<^item> Failures of the operating system that do not depend on the modelled state (a full
    disk, missing permissions, a closed output pipe) are outside the model.
\<close>

subsection \<open>Exceptions\<close>

datatype error = ValueError | OSError | UnicodeDecodeError | AssertionError
  | CalledProcessError | FileNotFoundError | OverflowError

subsection \<open>Bytes and text\<close>

type_synonym bytes = string
type_synonym codepoint = string
type_synonym str = "codepoint list"

definition byte :: "char \<Rightarrow> nat" where
  "byte c = of_char c"

text \<open>An ASCII literal of the source as a \<open>str\<close>, and the newline character.\<close>

definition lit :: "string \<Rightarrow> str" where
  "lit s = map (\<lambda>c. [c]) s"

definition NL :: codepoint where
  "NL = [CHR 0x0A]"

definition is_cont :: "char \<Rightarrow> bool" where
  "is_cont c = (128 \<le> byte c \<and> byte c \<le> 191)"

text \<open>
  \<open>chars_of\<close> groups a byte string into units: a byte followed by the continuation
  bytes (\<open>0x80\<close> to \<open>0xBF\<close>) after it. \<open>wf_codepoint\<close> is the well-formedness of one
  unit under Python's strict UTF-8 codec (no overlong forms, no surrogates, nothing
  above U+10FFFF).
\<close>

fun chars_of :: "bytes \<Rightarrow> str" where
  "chars_of [] = []"
| "chars_of (c # cs) =
     (case chars_of cs of
        [] \<Rightarrow> [[c]]
      | g # gs \<Rightarrow> if is_cont (hd g) then (c # g) # gs else [c] # g # gs)"

definition wf_codepoint :: "codepoint \<Rightarrow> bool" where
  "wf_codepoint u =
     (case map byte u of
        [a] \<Rightarrow> a < 128
      | [a, b] \<Rightarrow> 194 \<le> a \<and> a \<le> 223 \<and> 128 \<le> b \<and> b \<le> 191
      | [a, b, c] \<Rightarrow>
          (a = 224 \<and> 160 \<le> b \<and> b \<le> 191 \<or>
           225 \<le> a \<and> a \<le> 236 \<and> 128 \<le> b \<and> b \<le> 191 \<or>
           a = 237 \<and> 128 \<le> b \<and> b \<le> 159 \<or>
           238 \<le> a \<and> a \<le> 239 \<and> 128 \<le> b \<and> b \<le> 191)
          \<and> 128 \<le> c \<and> c \<le> 191
      | [a, b, c, d] \<Rightarrow>
          (a = 240 \<and> 144 \<le> b \<and> b \<le> 191 \<or>
           241 \<le> a \<and> a \<le> 243 \<and> 128 \<le> b \<and> b \<le> 191 \<or>
           a = 244 \<and> 128 \<le> b \<and> b \<le> 143)
          \<and> 128 \<le> c \<and> c \<le> 191 \<and> 128 \<le> d \<and> d \<le> 191
      | _ \<Rightarrow> False)"

definition decode :: "bytes \<Rightarrow> error + str" where
  "decode b =
     (if list_all wf_codepoint (chars_of b) then Inr (chars_of b) else Inl UnicodeDecodeError)"

definition encode :: "str \<Rightarrow> bytes" where
  "encode s = concat s"

text \<open>
  \<open>str.strip()\<close> removes the code points of \<open>str.isspace\<close> from both ends: U+0009 to
  U+000D, U+001C to U+0020, U+0085, U+00A0, U+1680, U+2000 to U+200A, U+2028, U+2029,
  U+202F, U+205F and U+3000.
\<close>

definition is_whitespace :: "codepoint \<Rightarrow> bool" where
  "is_whitespace u =
     (case map byte u of
        [a] \<Rightarrow> 9 \<le> a \<and> a \<le> 13 \<or> 28 \<le> a \<and> a \<le> 32
      | [a, b] \<Rightarrow> a = 194 \<and> (b = 133 \<or> b = 160)
      | [a, b, c] \<Rightarrow>
          a = 225 \<and> b = 154 \<and> c = 128 \<or>
          a = 226 \<and> b = 128 \<and> (128 \<le> c \<and> c \<le> 138 \<or> c = 168 \<or> c = 169 \<or> c = 175) \<or>
          a = 226 \<and> b = 129 \<and> c = 159 \<or>
          a = 227 \<and> b = 128 \<and> c = 128
      | _ \<Rightarrow> False)"

definition strip :: "str \<Rightarrow> str" where
  "strip s = rev (dropWhile is_whitespace (rev (dropWhile is_whitespace s)))"

text \<open>
  \<open>str.splitlines()\<close> ends a line at \<open>\n\<close>, \<open>\r\<close>, \<open>\r\n\<close>, \<open>\v\<close>, \<open>\f\<close>, \<open>\x1c\<close>,
  \<open>\x1d\<close>, \<open>\x1e\<close>, U+0085, U+2028 and U+2029, drops the line ends, and gives no empty
  last line.
\<close>

definition is_linebreak :: "codepoint \<Rightarrow> bool" where
  "is_linebreak u =
     (case map byte u of
        [a] \<Rightarrow> 10 \<le> a \<and> a \<le> 13 \<or> 28 \<le> a \<and> a \<le> 30
      | [a, b] \<Rightarrow> a = 194 \<and> b = 133
      | [a, b, c] \<Rightarrow> a = 226 \<and> b = 128 \<and> (c = 168 \<or> c = 169)
      | _ \<Rightarrow> False)"

fun splitlines_from :: "str \<Rightarrow> str \<Rightarrow> str list" where
  "splitlines_from cur [] = (if cur = [] then [] else [cur])"
| "splitlines_from cur [u] = (if is_linebreak u then [cur] else [cur @ [u]])"
| "splitlines_from cur (u # v # us) =
     (if u = [CHR 0x0D] \<and> v = [CHR 0x0A] then cur # splitlines_from [] us
      else if is_linebreak u then cur # splitlines_from [] (v # us)
      else splitlines_from (cur @ [u]) (v # us))"

definition splitlines :: "str \<Rightarrow> str list" where
  "splitlines s = splitlines_from [] s"

text \<open>\<open>a.partition(sep)\<close> for a separator of one code point: the parts before and after
  its first occurrence (the middle part is never used by the source).\<close>

definition partition_at :: "codepoint \<Rightarrow> str \<Rightarrow> str \<times> str" where
  "partition_at sep s = (takeWhile (\<lambda>u. u \<noteq> sep) s, drop 1 (dropWhile (\<lambda>u. u \<noteq> sep) s))"

text \<open>\<open>bytes.strip()\<close> removes ASCII whitespace.\<close>

definition is_space_byte :: "char \<Rightarrow> bool" where
  "is_space_byte c = (byte c = 32 \<or> 9 \<le> byte c \<and> byte c \<le> 13)"

definition strip_bytes :: "bytes \<Rightarrow> bytes" where
  "strip_bytes b = rev (dropWhile is_space_byte (rev (dropWhile is_space_byte b)))"

subsection \<open>Integers: \<open>int(x, 16)\<close>, \<open>format(n, '04x')\<close>, \<open>int.bit_length\<close>, true division\<close>

definition hex_digit_value :: "char \<Rightarrow> nat option" where
  "hex_digit_value c =
     (let b = byte c
      in if 48 \<le> b \<and> b \<le> 57 then Some (b - 48)
         else if 97 \<le> b \<and> b \<le> 102 then Some (b - 87)
         else if 65 \<le> b \<and> b \<le> 70 then Some (b - 55)
         else None)"

text \<open>
  The digit scanner of CPython's \<open>PyLong_FromString\<close> for base 16: digits with single
  underscores between them. It returns the value, the number of digits and the rest of
  the input, or \<open>None\<close> on a doubled or trailing underscore.
\<close>

fun scan_hex :: "bool \<Rightarrow> nat \<Rightarrow> nat \<Rightarrow> bytes \<Rightarrow> (nat \<times> nat \<times> bytes) option" where
  "scan_hex prev_us acc nd [] = (if prev_us then None else Some (acc, nd, []))"
| "scan_hex prev_us acc nd (c # cs) =
     (if c = CHR ''_'' then (if prev_us then None else scan_hex True acc nd cs)
      else (case hex_digit_value c of
              Some d \<Rightarrow> scan_hex False (16 * acc + d) (nd + 1) cs
            | None \<Rightarrow> if prev_us then None else Some (acc, nd, c # cs)))"

text \<open>
  \<open>int(b, 16)\<close> on a byte string: leading whitespace, an optional sign, an optional
  \<open>0x\<close> or \<open>0X\<close> (after which one underscore may stand), the digits, trailing
  whitespace. Anything else raises \<open>ValueError\<close>.
\<close>

definition py_int16 :: "bytes \<Rightarrow> error + int" where
  "py_int16 b =
     (let s1 = dropWhile is_space_byte b;
          neg = (case s1 of c # _ \<Rightarrow> c = CHR ''-'' | [] \<Rightarrow> False);
          s2 = (case s1 of c # r \<Rightarrow> if c = CHR ''+'' \<or> c = CHR ''-'' then r else s1 | [] \<Rightarrow> s1);
          s3 = (case s2 of
                  c # x # r \<Rightarrow>
                    if c = CHR ''0'' \<and> (x = CHR ''x'' \<or> x = CHR ''X'')
                    then (case r of u # r' \<Rightarrow> if u = CHR ''_'' then r' else r | [] \<Rightarrow> r)
                    else s2
                | _ \<Rightarrow> s2)
      in if take 1 s3 = ''_'' then Inl ValueError
         else (case scan_hex False 0 0 s3 of
                 None \<Rightarrow> Inl ValueError
               | Some (v, nd, rest) \<Rightarrow>
                   if nd = 0 \<or> dropWhile is_space_byte rest \<noteq> [] then Inl ValueError
                   else Inr (if neg then - int v else int v)))"

definition hexchar :: "nat \<Rightarrow> char" where
  "hexchar d = ''0123456789abcdef'' ! d"

fun hexstr :: "nat \<Rightarrow> string" where
  "hexstr n = (if n < 16 then [hexchar n] else hexstr (n div 16) @ [hexchar (n mod 16)])"

declare hexstr.simps [simp del]

text \<open>\<open>f"{n:04x}"\<close>: lower-case hexadecimal, padded with zeros to four characters.\<close>

definition format_04x :: "nat \<Rightarrow> string" where
  "format_04x n = replicate (4 - length (hexstr n)) (CHR ''0'') @ hexstr n"

fun bit_length :: "nat \<Rightarrow> nat" where
  "bit_length n = (if n = 0 then 0 else Suc (bit_length (n div 2)))"

declare bit_length.simps [simp del]

text \<open>
  \<open>size / 32\<close> is Python's true division: the quotient as a binary64 float, correctly
  rounded (to nearest, ties to the even significand), \<open>OverflowError\<close> when it exceeds
  the float range; \<open>int(...)\<close> then truncates. Dividing by 32 only changes the exponent,
  so the float is \<open>q / 32\<close> where \<open>q\<close> is \<open>size\<close> rounded to 53 significant bits.
\<close>

definition round_to_multiple :: "nat \<Rightarrow> nat \<Rightarrow> nat" where
  "round_to_multiple u n =
     (let m = n div u; r = n mod u
      in if u < 2 * r \<or> (2 * r = u \<and> odd m) then (m + 1) * u else m * u)"

definition float_significand :: "nat \<Rightarrow> nat" where
  "float_significand n =
     (if bit_length n \<le> 53 then n else round_to_multiple (2 ^ (bit_length n - 53)) n)"

definition int_true_div_32 :: "nat \<Rightarrow> error + nat" where
  "int_true_div_32 sz =
     (let q = float_significand sz
      in if 2 ^ 1029 \<le> q then Inl OverflowError else Inr (q div 32))"

subsection \<open>Pure functions of the source\<close>

text \<open>\<open>range(0, stop, step)\<close> for a positive step.\<close>

definition py_range :: "nat \<Rightarrow> nat \<Rightarrow> nat list" where
  "py_range stop step = map (\<lambda>k. k * step) [0 ..< (stop + step - 1) div step]"

definition slices :: "'a list \<Rightarrow> nat \<Rightarrow> 'a list list" where
  "slices input_string chunk_size =
     map (\<lambda>i. take chunk_size (drop i input_string)) (py_range (length input_string) chunk_size)"

text \<open>\<open>chunk_string\<close> is only called with its default chunk size.\<close>

definition chunk_string :: "'a list \<Rightarrow> 'a list list" where
  "chunk_string input_string = slices input_string 65516"

definition avg_min :: nat where
  "avg_min = 128 * 1024"

definition get_avg_size :: "nat \<Rightarrow> error + nat" where
  "get_avg_size sz =
     (case int_true_div_32 sz of
        Inl e \<Rightarrow> Inl e
      | Inr box \<Rightarrow>
          (let bits = bit_length box;
               shift = nat (max (int bits - 5) 0)
           in Inr (push_bit shift (drop_bit shift box))))"

text \<open>The average chunk size both clean handlers pass to the chunker.\<close>

definition clean_avg_size :: "nat \<Rightarrow> error + nat" where
  "clean_avg_size sz =
     (case get_avg_size sz of
        Inl e \<Rightarrow> Inl e
      | Inr a \<Rightarrow> Inr (max avg_min a))"

text \<open>
  The adaptive average as the specification words it (section 4.4): integer division
  by 32, the bit length, the shift, the five top bits, the floor of 128 KiB.
\<close>

definition quantize :: "nat \<Rightarrow> nat" where
  "quantize n =
     (let box = n div 32;
          bits = bit_length box;
          shift = max (bits - 5) 0
      in push_bit shift (drop_bit shift box))"

definition spec_avg_size :: "nat \<Rightarrow> nat" where
  "spec_avg_size n = max 131072 (quantize n)"

text \<open>For the proofs: a number cut down to its five top bits.\<close>

definition top_bits :: "nat \<Rightarrow> nat" where
  "top_bits b = (b div 2 ^ (bit_length b - 5)) * 2 ^ (bit_length b - 5)"

subsection \<open>Paths (\<open>pathlib\<close>, POSIX flavour)\<close>

text \<open>
  A path is its root (\<open>""\<close>, \<open>"/"\<close> or \<open>"//"\<close>) and its components. \<open>Path(s)\<close> splits
  at \<open>/\<close> and drops empty components and \<open>.\<close>; \<open>..\<close> stays. Suffix and stem follow
  \<open>PurePath.suffix\<close> and \<open>PurePath.stem\<close>: the last dot of the name counts when it is
  neither the first nor the last character.
\<close>

record path =
  path_root :: str
  path_parts :: "str list"

fun split_on :: "'a \<Rightarrow> 'a list \<Rightarrow> 'a list list" where
  "split_on sep [] = [[]]"
| "split_on sep (x # xs) =
     (if x = sep then [] # split_on sep xs
      else (case split_on sep xs of
              g # gs \<Rightarrow> (x # g) # gs
            | [] \<Rightarrow> [[x]]))"

fun join :: "'a list \<Rightarrow> 'a list list \<Rightarrow> 'a list" where
  "join sep [] = []"
| "join sep [x] = x"
| "join sep (x # y # ys) = x @ sep @ join sep (y # ys)"

definition Path :: "str \<Rightarrow> path" where
  "Path s =
     \<lparr>path_root =
        (if take 2 s = lit ''//'' \<and> take 3 s \<noteq> lit ''///'' then lit ''//''
         else if take 1 s = lit ''/'' then lit ''/''
         else []),
      path_parts = filter (\<lambda>x. x \<noteq> [] \<and> x \<noteq> lit ''.'') (split_on [CHR ''/''] s)\<rparr>"

definition path_str :: "path \<Rightarrow> str" where
  "path_str p =
     (if path_root p = [] \<and> path_parts p = [] then lit ''.''
      else path_root p @ join (lit ''/'') (path_parts p))"

definition path_name :: "path \<Rightarrow> str" where
  "path_name p = (if path_parts p = [] then [] else last (path_parts p))"

text \<open>\<open>name.rfind('.')\<close>, \<open>None\<close> for \<open>-1\<close>.\<close>

definition rfind_dot :: "str \<Rightarrow> nat option" where
  "rfind_dot n =
     (if [CHR ''.''] \<in> set n
      then Some (length n - 1 - length (takeWhile (\<lambda>u. u \<noteq> [CHR ''.'']) (rev n)))
      else None)"

definition path_suffix :: "path \<Rightarrow> str" where
  "path_suffix p =
     (let n = path_name p
      in case rfind_dot n of
           Some i \<Rightarrow> if 0 < i \<and> i < length n - 1 then drop i n else []
         | None \<Rightarrow> [])"

definition path_stem :: "path \<Rightarrow> str" where
  "path_stem p =
     (let n = path_name p
      in case rfind_dot n of
           Some i \<Rightarrow> if 0 < i \<and> i < length n - 1 then take i n else n
         | None \<Rightarrow> n)"

text \<open>\<open>p.with_suffix(suffix)\<close> for a valid suffix; the source only passes \<open>".cdc"\<close>.\<close>

definition with_suffix :: "path \<Rightarrow> str \<Rightarrow> error + path" where
  "with_suffix p suf =
     (let n = path_name p
      in if n = [] then Inl ValueError
         else (let old_suffix = path_suffix p;
                   n' = (if old_suffix = [] then n @ suf
                         else take (length n - length old_suffix) n @ suf)
               in Inr (p\<lparr>path_parts := butlast (path_parts p) @ [n']\<rparr>)))"

text \<open>\<open>p / s\<close>: an absolute right operand replaces the left one.\<close>

definition truediv :: "path \<Rightarrow> str \<Rightarrow> path" where
  "truediv p s =
     (let q = Path s
      in if path_root q \<noteq> [] then q else p\<lparr>path_parts := path_parts p @ path_parts q\<rparr>)"

definition tmpfile :: path where
  "tmpfile = Path (lit ''.fast_cdc_tmp_file_29310b6'')"

definition cdcdir :: path where
  "cdcdir = Path (lit ''.cdc'')"

definition cdcmatch :: str where
  "cdcmatch = lit ''.cdc/**/*.cdc''"

definition cdcline :: str where
  "cdcline = lit ''/.cdc/**/*.cdc binary filter=git_fastcdc''"

definition cdcattr :: str where
  "cdcattr = lit ''/.gitattributes text -binary -filter''"

text \<open>\<open>hash_dir\<close>: the directories are created as needed, which leaves the files of the
  model unchanged.\<close>

definition hash_dir :: "path \<Rightarrow> str \<Rightarrow> path" where
  "hash_dir base hash =
     (let dir = truediv (truediv base (take 2 hash)) (take 2 (drop 2 hash))
      in truediv dir hash)"

subsection \<open>The state of a filter session and the collaborators\<close>

text \<open>
  \<open>stdin\<close> is what is left to read; at its end a read meets the end of the stream, or
  an I/O failure when \<open>stdin_fails\<close>. \<open>stdout\<close> is everything written. \<open>files\<close> is the
  working tree, from paths to contents. \<open>ondisk_cache\<close> is the global \<open>_ondisk\<close>.
\<close>

record world =
  stdin :: bytes
  stdin_fails :: bool
  stdout :: bytes
  files :: "path \<rightharpoonup> bytes"
  ondisk_cache :: "bool option"

text \<open>
  The collaborators: \<open>hash_object\<close> is the output of \<open>git hash-object -w -t blob --stdin\<close>
  on the given input, \<open>cat_file\<close> that of \<open>git cat-file blob\<close>, each \<open>Inl\<close> when the
  command fails; \<open>fastcdc\<close> gives the spans \<open>(offset, length)\<close> the chunker yields on the
  data for an average size, and the exception that ends the iteration, if any;
  \<open>config_ondisk\<close> is the output of \<open>git config --local --get fastcdc.ondisk\<close>.
\<close>

record env =
  hash_object :: "bytes \<Rightarrow> error + bytes"
  cat_file :: "str \<Rightarrow> error + bytes"
  fastcdc :: "bytes \<Rightarrow> nat \<Rightarrow> (nat \<times> nat) list \<times> error option"
  config_ondisk :: bytes

definition git_hash_blob :: "env \<Rightarrow> bytes \<Rightarrow> error + str" where
  "git_hash_blob E data =
     (case hash_object E data of
        Inl e \<Rightarrow> Inl e
      | Inr out \<Rightarrow> decode (strip_bytes out))"

definition git_get_blob :: "env \<Rightarrow> str \<Rightarrow> error + bytes" where
  "git_get_blob E hash = cat_file E hash"

subsection \<open>Packet framing\<close>

text \<open>
  \<open>read(n)\<close> on the buffered standard input. A size below \<open>-1\<close> is refused with
  \<open>ValueError\<close> before anything is read. Otherwise the result is \<open>n\<close> bytes, fewer only
  at the end of the stream, and everything up to the end of the stream for \<open>n = -1\<close>;
  \<open>OSError\<close> when the stream fails before that.
\<close>

definition read :: "int \<Rightarrow> world \<Rightarrow> (error + bytes) \<times> world" where
  "read n w =
     (if n < - 1 then (Inl ValueError, w)
      else if 0 \<le> n \<and> nat n \<le> length (stdin w)
      then (Inr (take (nat n) (stdin w)), w\<lparr>stdin := drop (nat n) (stdin w)\<rparr>)
      else if stdin_fails w then (Inl OSError, w\<lparr>stdin := []\<rparr>)
      else (Inr (stdin w), w\<lparr>stdin := []\<rparr>))"

text \<open>\<open>write\<close> followed by \<open>flush\<close> on the standard output.\<close>

definition write_bytes :: "bytes \<Rightarrow> world \<Rightarrow> world" where
  "write_bytes b w = w\<lparr>stdout := stdout w @ b\<rparr>"

definition read_pkt_line :: "world \<Rightarrow> (error + bytes) \<times> world" where
  "read_pkt_line w =
     (case read 4 w of
        (Inl e, w1) \<Rightarrow> (Inl e, w1)
      | (Inr length_hex, w1) \<Rightarrow>
          if length_hex = [] then (Inr [], w1)
          else (case py_int16 length_hex of
                  Inl e \<Rightarrow> (Inl e, w1)
                | Inr len \<Rightarrow>
                    if len = 0 then (Inr [], w1)
                    else read (len - 4) w1))"

definition read_pkt_line_str :: "world \<Rightarrow> (error + str) \<times> world" where
  "read_pkt_line_str w =
     (case read_pkt_line w of
        (Inl e, w1) \<Rightarrow> (Inl e, w1)
      | (Inr b, w1) \<Rightarrow>
          (case decode b of
             Inl e \<Rightarrow> (Inl e, w1)
           | Inr s \<Rightarrow> (Inr (strip s), w1)))"

text \<open>The bytes of one packet: \<open>f"{length:04x}".encode() + data\<close>.\<close>

definition pkt_line :: "bytes \<Rightarrow> bytes" where
  "pkt_line data = format_04x (length data + 4) @ data"

definition write_pkt_line :: "bytes \<Rightarrow> world \<Rightarrow> world" where
  "write_pkt_line data w = write_bytes (pkt_line data) w"

definition write_pkt_line_str :: "str \<Rightarrow> world \<Rightarrow> world" where
  "write_pkt_line_str string w = write_pkt_line (encode string) w"

definition flush_pkt :: "world \<Rightarrow> world" where
  "flush_pkt w = write_bytes ''0000'' w"

subsection \<open>The loops that read packets\<close>

text \<open>
  Each loop of the source that reads packets until an empty one is a recursive function
  on the state. A packet that is not empty takes at least one byte from the input, which
  is the measure of their termination.
\<close>

lemma read_consumes:
  "read n w = (r, w1) \<Longrightarrow> length (stdin w1) \<le> length (stdin w)"
  by (auto simp add: read_def split: if_splits)

lemma read_nonempty_consumes:
  "read n w = (Inr b, w1) \<Longrightarrow> b \<noteq> [] \<Longrightarrow> length (stdin w1) < length (stdin w)"
  by (auto simp add: read_def split: if_splits)

lemma read_pkt_line_consumes:
  assumes "read_pkt_line w = (Inr pkg, w1)" "pkg \<noteq> []"
  shows "length (stdin w1) < length (stdin w)"
proof -
  obtain r0 w0 where r: "read 4 w = (r0, w0)" by (cases "read 4 w")
  with assms obtain length_hex where l: "r0 = Inr length_hex" "length_hex \<noteq> []"
    by (cases r0) (auto simp add: read_pkt_line_def split: if_splits)
  from r l have lt: "length (stdin w0) < length (stdin w)"
    by (auto dest: read_nonempty_consumes)
  from assms r l obtain len where "read (len - 4) w0 = (Inr pkg, w1)"
    by (auto simp add: read_pkt_line_def split: if_splits sum.splits)
  then have "length (stdin w1) \<le> length (stdin w0)" by (rule read_consumes)
  with lt show ?thesis by linarith
qed

lemma read_pkt_line_str_consumes:
  assumes "read_pkt_line_str w = (Inr s, w1)" "s \<noteq> []"
  shows "length (stdin w1) < length (stdin w)"
proof -
  from assms obtain b where b: "read_pkt_line w = (Inr b, w1)" "s = strip (chars_of b)"
    by (auto simp add: read_pkt_line_str_def decode_def split: prod.splits sum.splits if_splits)
  with assms(2) have "b \<noteq> []" by (auto simp add: strip_def)
  with b(1) show ?thesis by (rule read_pkt_line_consumes)
qed

text \<open>
  \<open>while pkg := read_pkt_line(): ...\<close>: the packets read up to the first empty one, and
  the exception that ended the loop, if any.
\<close>

function read_payload :: "world \<Rightarrow> bytes list \<times> error option \<times> world" where
  "read_payload w =
     (case read_pkt_line w of
        (Inl e, w1) \<Rightarrow> ([], Some e, w1)
      | (Inr pkg, w1) \<Rightarrow>
          if pkg = [] then ([], None, w1)
          else (case read_payload w1 of (pkgs, err, w2) \<Rightarrow> (pkg # pkgs, err, w2)))"
  by pat_completeness auto
termination
  by (relation "measure (\<lambda>w. length (stdin w))") (auto intro: read_pkt_line_consumes [OF sym])

declare read_payload.simps [simp del]

text \<open>The first loop of \<open>smudge\<close>: \<open>lines.extend(pkg.splitlines())\<close> for each text packet.\<close>

function smudge_lines :: "str list \<Rightarrow> world \<Rightarrow> (error + str list) \<times> world" where
  "smudge_lines lines w =
     (case read_pkt_line_str w of
        (Inl e, w1) \<Rightarrow> (Inl e, w1)
      | (Inr pkg, w1) \<Rightarrow>
          if pkg = [] then (Inr lines, w1)
          else smudge_lines (lines @ splitlines pkg) w1)"
  by pat_completeness auto
termination
  by (relation "measure (\<lambda>(lines, w). length (stdin w))")
    (auto intro: read_pkt_line_str_consumes [OF sym])

declare smudge_lines.simps [simp del]

text \<open>
  The header loop of \<open>process\<close>, on the variables \<open>blob\<close>, \<open>ref\<close> and \<open>treeish\<close>. On any
  other key the source evaluates \<open>RuntimeError("Unknown argument")\<close> without raising it.
\<close>

type_synonym headers = "str option \<times> str option \<times> str option"

function read_headers :: "headers \<Rightarrow> world \<Rightarrow> (error + headers) \<times> world" where
  "read_headers (blob, ref, treeish) w =
     (case read_pkt_line_str w of
        (Inl e, w1) \<Rightarrow> (Inl e, w1)
      | (Inr line, w1) \<Rightarrow>
          if line = [] then (Inr (blob, ref, treeish), w1)
          else (case partition_at [CHR ''=''] line of
                  (key, val) \<Rightarrow>
                    if key = lit ''treeish'' then read_headers (blob, ref, Some val) w1
                    else if key = lit ''ref'' then read_headers (blob, Some val, treeish) w1
                    else if key = lit ''blob'' then read_headers (Some val, ref, treeish) w1
                    else read_headers (blob, ref, treeish) w1))"
  by pat_completeness auto
termination
  by (relation "measure (\<lambda>(h, w). length (stdin w))")
    (auto intro: read_pkt_line_str_consumes [OF sym])

declare read_headers.simps [simp del]

subsection \<open>The handlers\<close>

definition status_success :: str where
  "status_success = lit ''status=success'' @ [NL]"

text \<open>\<open>for chunk in chunk_string(blob): write_pkt_line(chunk)\<close>\<close>

definition write_chunks :: "bytes \<Rightarrow> world \<Rightarrow> world" where
  "write_chunks blob w = foldl (\<lambda>w' chunk. write_pkt_line chunk w') w (chunk_string blob)"

text \<open>
  The body of the loop over the chunks, shared by \<open>clean\<close> and \<open>clean_ondisk\<close>: the data
  of the span (a slice of the buffer, or a seek and a read in the temporary file), its
  hash, the chunk-manifest file, the response line. The file is written in text mode;
  the model takes the encoding to be UTF-8.
\<close>

fun store_chunks :: "env \<Rightarrow> bytes \<Rightarrow> (nat \<times> nat) list \<Rightarrow> bool \<Rightarrow> world \<Rightarrow> (error + bool) \<times> world" where
  "store_chunks E buffer [] new w = (Inr new, w)"
| "store_chunks E buffer ((offset, len) # cdcs) new w =
     (let data = take len (drop offset buffer)
      in case git_hash_blob E data of
           Inl e \<Rightarrow> (Inl e, w)
         | Inr hash \<Rightarrow>
             (case with_suffix (hash_dir cdcdir hash) (lit ''.cdc'') of
                Inl e \<Rightarrow> (Inl e, w)
              | Inr path \<Rightarrow>
                  (let new' = (new \<or> files w path = None);
                       w1 = w\<lparr>files := (files w)(path \<mapsto> encode hash)\<rparr>;
                       w2 = write_pkt_line_str (path_name path @ [NL]) w1
                   in store_chunks E buffer cdcs new' w2)))"

text \<open>What both clean handlers do once the payload is there.\<close>

definition chunk_and_store :: "env \<Rightarrow> bytes \<Rightarrow> world \<Rightarrow> (error + bool) \<times> world" where
  "chunk_and_store E buffer w =
     (case clean_avg_size (length buffer) of
        Inl e \<Rightarrow> (Inl e, w)
      | Inr avg_size \<Rightarrow>
          (let w1 = flush_pkt (write_pkt_line_str status_success w)
           in case fastcdc E buffer avg_size of
                (cdcs, err) \<Rightarrow>
                  (case store_chunks E buffer cdcs False w1 of
                     (Inl e, w2) \<Rightarrow> (Inl e, w2)
                   | (Inr new, w2) \<Rightarrow>
                       (case err of
                          Some e \<Rightarrow> (Inl e, w2)
                        | None \<Rightarrow> (Inr new, flush_pkt (flush_pkt w2))))))"

definition clean :: "env \<Rightarrow> path \<Rightarrow> world \<Rightarrow> (error + bool) \<times> world" where
  "clean E pathname w =
     (case read_payload w of
        (pkgs, Some e, w1) \<Rightarrow> (Inl e, w1)
      | (pkgs, None, w1) \<Rightarrow> chunk_and_store E (concat pkgs) w1)"

text \<open>
  \<open>clean_ondisk\<close>: the body of the \<open>try\<close>, then the \<open>finally\<close> clause. Opening the
  temporary file for writing creates it empty; the packets are appended to it.
  \<open>tmpfile.unlink()\<close> raises \<open>FileNotFoundError\<close> when the file is not there, which
  replaces the exception on its way, if any.
\<close>

definition clean_ondisk_try :: "env \<Rightarrow> path \<Rightarrow> world \<Rightarrow> (error + bool) \<times> world" where
  "clean_ondisk_try E pathname w =
     (let w0 = w\<lparr>files := (files w)(tmpfile \<mapsto> [])\<rparr>
      in case read_payload w0 of
           (pkgs, err, w1) \<Rightarrow>
             (let w2 = w1\<lparr>files := (files w1)(tmpfile \<mapsto> concat pkgs)\<rparr>
              in case err of
                   Some e \<Rightarrow> (Inl e, w2)
                 | None \<Rightarrow> chunk_and_store E (concat pkgs) w2))"

definition clean_ondisk :: "env \<Rightarrow> path \<Rightarrow> world \<Rightarrow> (error + bool) \<times> world" where
  "clean_ondisk E pathname w =
     (case clean_ondisk_try E pathname w of
        (r, w1) \<Rightarrow>
          if files w1 tmpfile = None then (Inl FileNotFoundError, w1)
          else (r, w1\<lparr>files := (files w1)(tmpfile := None)\<rparr>))"

definition smudge_cdc :: "path \<Rightarrow> str option \<Rightarrow> world \<Rightarrow> (error + unit) \<times> world" where
  "smudge_cdc pathname blob w =
     (case read_payload w of
        (pkgs, Some e, w1) \<Rightarrow> (Inl e, w1)
      | (pkgs, None, w1) \<Rightarrow>
          (let w2 = flush_pkt (write_pkt_line_str status_success w1)
           in case blob of
                None \<Rightarrow> (Inl AssertionError, w2)
              | Some b \<Rightarrow>
                  if path_stem pathname \<noteq> b then (Inl AssertionError, w2)
                  else (Inr (), flush_pkt (flush_pkt (write_pkt_line_str b w2)))))"

definition clean_cdc :: "env \<Rightarrow> path \<Rightarrow> world \<Rightarrow> (error + unit) \<times> world" where
  "clean_cdc E pathname w =
     (case read_pkt_line_str w of
        (Inl e, w1) \<Rightarrow> (Inl e, w1)
      | (Inr hash, w1) \<Rightarrow>
          (case read_pkt_line_str w1 of
             (Inl e, w2) \<Rightarrow> (Inl e, w2)
           | (Inr s, w2) \<Rightarrow>
               if s \<noteq> [] then (Inl AssertionError, w2)
               else (let w3 = flush_pkt (write_pkt_line_str status_success w2)
                     in case git_get_blob E hash of
                          Inl e \<Rightarrow> (Inl e, w3)
                        | Inr blob \<Rightarrow> (Inr (), flush_pkt (flush_pkt (write_chunks blob w3))))))"

fun smudge_emit :: "env \<Rightarrow> str list \<Rightarrow> world \<Rightarrow> (error + unit) \<times> world" where
  "smudge_emit E [] w = (Inr (), w)"
| "smudge_emit E (line # lines) w =
     (let line' = strip line;
          hash = path_stem (Path line')
      in if line' \<noteq> []
         then (case git_get_blob E hash of
                 Inl e \<Rightarrow> (Inl e, w)
               | Inr blob \<Rightarrow> smudge_emit E lines (write_chunks blob w))
         else smudge_emit E lines w)"

definition smudge :: "env \<Rightarrow> path \<Rightarrow> str option \<Rightarrow> world \<Rightarrow> (error + unit) \<times> world" where
  "smudge E pathname blob w =
     (case smudge_lines [] w of
        (Inl e, w1) \<Rightarrow> (Inl e, w1)
      | (Inr lines, w1) \<Rightarrow>
          (let w2 = flush_pkt (write_pkt_line_str status_success w1)
           in case smudge_emit E lines w2 of
                (Inl e, w3) \<Rightarrow> (Inl e, w3)
              | (Inr u, w3) \<Rightarrow> (Inr (), flush_pkt (flush_pkt w3))))"

definition cat :: "world \<Rightarrow> (error + unit) \<times> world" where
  "cat w =
     (case read_payload w of
        (pkgs, Some e, w1) \<Rightarrow> (Inl e, w1)
      | (pkgs, None, w1) \<Rightarrow>
          (let w2 = flush_pkt (write_pkt_line_str status_success w1);
               w3 = foldl (\<lambda>w' pkg. write_pkt_line pkg w') w2 pkgs
           in (Inr (), flush_pkt (flush_pkt w3))))"

definition ondisk :: "env \<Rightarrow> world \<Rightarrow> bool \<times> world" where
  "ondisk E w =
     (case ondisk_cache w of
        None \<Rightarrow>
          (let v = (strip_bytes (config_ondisk E) = ''true'')
           in (v, w\<lparr>ondisk_cache := Some v\<rparr>))
      | Some v \<Rightarrow> (v, w))"

subsection \<open>One request of \<open>process\<close>\<close>

text \<open>
  \<open>dispatch\<close> is the routing at the end of the body of the request loop, with the new
  value of \<open>new\<close> as its result.
\<close>

definition dispatch :: "env \<Rightarrow> str \<Rightarrow> path \<Rightarrow> headers \<Rightarrow> bool \<Rightarrow> world \<Rightarrow> (error + bool) \<times> world" where
  "dispatch E command pathname h new w =
     (case h of
        (blob, ref, treeish) \<Rightarrow>
          if command = lit ''clean'' then
            (if prefix (lit ''.cdc/'') (path_str pathname) then
               (if path_suffix pathname = lit ''.cdc''
                then (case clean_cdc E pathname w of (Inl e, w1) \<Rightarrow> (Inl e, w1) | (Inr u, w1) \<Rightarrow> (Inr new, w1))
                else (case cat w of (Inl e, w1) \<Rightarrow> (Inl e, w1) | (Inr u, w1) \<Rightarrow> (Inr new, w1)))
             else (case ondisk E w of
                     (True, w0) \<Rightarrow>
                       (case clean_ondisk E pathname w0 of
                          (Inl e, w1) \<Rightarrow> (Inl e, w1)
                        | (Inr n, w1) \<Rightarrow> (Inr (n \<or> new), w1))
                   | (False, w0) \<Rightarrow>
                       (case clean E pathname w0 of
                          (Inl e, w1) \<Rightarrow> (Inl e, w1)
                        | (Inr n, w1) \<Rightarrow> (Inr (n \<or> new), w1))))
          else if command = lit ''smudge'' then
            (if prefix (lit ''.cdc/'') (path_str pathname)
             then (case smudge_cdc pathname blob w of (Inl e, w1) \<Rightarrow> (Inl e, w1) | (Inr u, w1) \<Rightarrow> (Inr new, w1))
             else (case smudge E pathname blob w of (Inl e, w1) \<Rightarrow> (Inl e, w1) | (Inr u, w1) \<Rightarrow> (Inr new, w1)))
          else (Inr new, w))"

text \<open>
  The body of the request loop, from the command line \<open>line\<close> that the loop condition
  has read: the command, the pathname, the headers, the routing.
\<close>

definition process_request :: "env \<Rightarrow> str \<Rightarrow> bool \<Rightarrow> world \<Rightarrow> (error + bool) \<times> world" where
  "process_request E line new w =
     (case partition_at [CHR ''=''] line of
        (key, command) \<Rightarrow>
          if key \<noteq> lit ''command'' then (Inl AssertionError, w)
          else (case read_pkt_line_str w of
                  (Inl e, w1) \<Rightarrow> (Inl e, w1)
                | (Inr line2, w1) \<Rightarrow>
                    (case partition_at [CHR ''=''] line2 of
                       (key2, pathname) \<Rightarrow>
                         if key2 \<noteq> lit ''pathname'' then (Inl AssertionError, w1)
                         else (case read_headers (None, None, None) w1 of
                                 (Inl e, w2) \<Rightarrow> (Inl e, w2)
                               | (Inr h, w2) \<Rightarrow> dispatch E command (Path pathname) h new w2))))"

subsection \<open>Notions used to state the properties\<close>

text \<open>
  A payload as it stands on a stream: its packets and a flush marker; and a whole
  response: the status packet, a flush, the response packets, two flushes.
\<close>

definition framed :: "bytes list \<Rightarrow> bytes" where
  "framed ps = concat (map pkt_line ps) @ ''0000''"

definition response :: "bytes list \<Rightarrow> bytes" where
  "response ps = pkt_line (encode status_success) @ ''0000'' @ framed ps @ ''0000''"

text \<open>Packets that \<open>read_pkt_line\<close> reads back as they are: not empty, and with a length
  that fits the four hexadecimal digits.\<close>

definition packets_ok :: "bytes list \<Rightarrow> bool" where
  "packets_ok ps = list_all (\<lambda>p. p \<noteq> [] \<and> length p + 4 < 65536) ps"

text \<open>A hash as git prints it: lower-case hexadecimal digits, at least four of them.\<close>

definition hex_codepoint :: "codepoint \<Rightarrow> bool" where
  "hex_codepoint u = (u \<in> set (lit ''0123456789abcdef''))"

definition is_hash :: "str \<Rightarrow> bool" where
  "is_hash h = (4 \<le> length h \<and> list_all hex_codepoint h)"

text \<open>For the proofs: a text without a slash and without a dot.\<close>

definition plain :: "str \<Rightarrow> bool" where
  "plain s = (\<forall>u \<in> set s. u \<noteq> [CHR ''/''] \<and> u \<noteq> [CHR ''.''])"

text \<open>The path of the chunk-manifest file of a hash as the specification gives it:
  \<open>.cdc/<hash[0:2]>/<hash[2:4]>/<hash>.cdc\<close>.\<close>

definition manifest_path :: "str \<Rightarrow> path" where
  "manifest_path h =
     \<lparr>path_root = [], path_parts = [lit ''.cdc'', take 2 h, take 2 (drop 2 h), h @ lit ''.cdc'']\<rparr>"

text \<open>The spans of a chunker cover an input of \<open>n\<close> bytes exactly and in order: the first
  starts at 0, each starts where the one before it ends, the last ends at \<open>n\<close>.\<close>

fun covers_from :: "nat \<Rightarrow> (nat \<times> nat) list \<Rightarrow> nat \<Rightarrow> bool" where
  "covers_from pos [] n = (pos = n)"
| "covers_from pos ((offset, len) # cdcs) n = (offset = pos \<and> covers_from (pos + len) cdcs n)"

definition chunk_data :: "bytes \<Rightarrow> (nat \<times> nat) list \<Rightarrow> bytes list" where
  "chunk_data buffer cdcs = map (\<lambda>(offset, len). take len (drop offset buffer)) cdcs"

text \<open>
  \<open>hashes_ok\<close>: what the object store returns as a hash is one. \<open>manifest_of E chunks p v\<close>:
  the path \<open>p\<close> with the contents \<open>v\<close> is the chunk-manifest file of one of the chunks, at
  the path the specification gives, holding the hash that git returned for the chunk,
  which is also its stem. \<open>payload_chunks\<close>: the chunks of a payload that the clean
  handlers go through.
\<close>

definition hashes_ok :: "env \<Rightarrow> bool" where
  "hashes_ok E = (\<forall>data h. git_hash_blob E data = Inr h \<longrightarrow> is_hash h)"

definition manifest_of :: "env \<Rightarrow> bytes list \<Rightarrow> path \<Rightarrow> bytes option \<Rightarrow> bool" where
  "manifest_of E chunks p v =
     (\<exists>data h. data \<in> set chunks \<and> git_hash_blob E data = Inr h \<and> p = manifest_path h
        \<and> v = Some (encode h) \<and> path_stem p = h)"

definition payload_chunks :: "env \<Rightarrow> bytes \<Rightarrow> bytes list" where
  "payload_chunks E buffer =
     (case clean_avg_size (length buffer) of
        Inl e \<Rightarrow> []
      | Inr avg_size \<Rightarrow> chunk_data buffer (fst (fastcdc E buffer avg_size)))"

text \<open>
  A packet that a loop over \<open>read_pkt_line_str\<close> takes as a line: it reads back as it is,
  it decodes, and it is not empty once stripped. \<open>packet_line\<close> is that line. A line has an
  unknown key when the text before its first \<open>=\<close> is none of \<open>treeish\<close>, \<open>ref\<close>, \<open>blob\<close>.
\<close>

definition packet_line :: "bytes \<Rightarrow> str" where
  "packet_line p = (case decode p of Inl e \<Rightarrow> [] | Inr s \<Rightarrow> strip s)"

definition text_packet :: "bytes \<Rightarrow> bool" where
  "text_packet p =
     (p \<noteq> [] \<and> length p + 4 < 65536
      \<and> (case decode p of Inl e \<Rightarrow> False | Inr s \<Rightarrow> strip s \<noteq> []))"

definition unknown_key :: "str \<Rightarrow> bool" where
  "unknown_key line =
     (let key = fst (partition_at [CHR ''=''] line)
      in key \<noteq> lit ''treeish'' \<and> key \<noteq> lit ''ref'' \<and> key \<noteq> lit ''blob'')"

subsection \<open>Text files\<close>

text \<open>
  Reading a file opened in text mode with \<open>encoding="UTF-8"\<close>: the contents decoded, then
  the universal newlines, where \<open>\r\n\<close> and \<open>\r\<close> are read as \<open>\n\<close>. Writing in text mode
  is the encoding; \<open>\n\<close> is written as it is (POSIX).
\<close>

fun universal_newlines :: "str \<Rightarrow> str" where
  "universal_newlines [] = []"
| "universal_newlines [u] = (if u = [CHR 0x0D] then [NL] else [u])"
| "universal_newlines (u # v # us) =
     (if u = [CHR 0x0D] \<and> v = [CHR 0x0A] then NL # universal_newlines us
      else if u = [CHR 0x0D] then NL # universal_newlines (v # us)
      else u # universal_newlines (v # us))"

definition read_text :: "bytes \<Rightarrow> error + str" where
  "read_text b = (case decode b of Inl e \<Rightarrow> Inl e | Inr s \<Rightarrow> Inr (universal_newlines s))"

subsection \<open>The commands \<open>install\<close> and \<open>remove\<close>\<close>

text \<open>
  The state of the two commands: the file \<open>.gitattributes\<close> at the top of the working
  tree (\<open>None\<close> when it does not exist) and the local configuration of git, the values
  of each key in their order. \<open>git config\<close> is not part of the source. Its two uses are
  modelled as its manual describes them: \<open>--unset\<close> removes a key that has exactly one
  value and fails on any other (the source does not check its exit code); setting a
  value replaces the only value of a key or adds the first one, and fails on a key
  with several values (\<open>check=True\<close> turns that into \<open>CalledProcessError\<close>).
\<close>

type_synonym gitconfig = "string \<Rightarrow> string list"

record repo =
  attributes :: "bytes option"
  config :: gitconfig

definition config_unset :: "string \<Rightarrow> repo \<Rightarrow> repo" where
  "config_unset key s =
     (if length (config s key) = 1 then s\<lparr>config := (config s)(key := [])\<rparr> else s)"

definition config_set :: "string \<Rightarrow> string \<Rightarrow> repo \<Rightarrow> error + repo" where
  "config_set key v s =
     (if length (config s key) \<le> 1 then Inr (s\<lparr>config := (config s)(key := [v])\<rparr>)
      else Inl CalledProcessError)"

text \<open>\<open>file.touch()\<close>, \<open>f.read()\<close> on the file opened for reading, and the file opened for
  writing, which truncates it, with everything that is then written to it.\<close>

definition touch :: "repo \<Rightarrow> repo" where
  "touch s = (case attributes s of None \<Rightarrow> s\<lparr>attributes := Some []\<rparr> | Some b \<Rightarrow> s)"

definition read_attributes :: "repo \<Rightarrow> error + str" where
  "read_attributes s =
     (case attributes s of None \<Rightarrow> Inl FileNotFoundError | Some b \<Rightarrow> read_text b)"

definition write_attributes :: "str \<Rightarrow> repo \<Rightarrow> repo" where
  "write_attributes data s = s\<lparr>attributes := Some (encode data)\<rparr>"

definition do_remove :: "repo \<Rightarrow> (error + unit) \<times> repo" where
  "do_remove s =
     (let s1 = config_unset ''filter.git_fastcdc.process'' s;
          s2 = config_unset ''filter.git_fastcdc.required'' s1;
          s3 = touch s2
      in case read_attributes s3 of
           Inl e \<Rightarrow> (Inl e, s3)
         | Inr data \<Rightarrow>
             (Inr (), write_attributes
                (concat (map (\<lambda>line. line @ [NL])
                   (filter (\<lambda>line. \<not> sublist cdcline line \<and> \<not> sublist cdcattr line)
                      (splitlines data)))) s3))"

definition install :: "repo \<Rightarrow> (error + unit) \<times> repo" where
  "install s =
     (case do_remove s of
        (Inl e, s1) \<Rightarrow> (Inl e, s1)
      | (Inr u, s1) \<Rightarrow>
          (case config_set ''filter.git_fastcdc.process'' ''git-fastcdc process'' s1 of
             Inl e \<Rightarrow> (Inl e, s1)
           | Inr s2 \<Rightarrow>
               (case config_set ''filter.git_fastcdc.required'' ''true'' s2 of
                  Inl e \<Rightarrow> (Inl e, s2)
                | Inr s3 \<Rightarrow>
                    (let s4 = touch s3
                     in case read_attributes s4 of
                          Inl e \<Rightarrow> (Inl e, s4)
                        | Inr text \<Rightarrow>
                            (let data = strip text
                             in (Inr (), write_attributes
                                  ((if data \<noteq> [] then data @ [NL] else [])
                                    @ cdcline @ [NL] @ cdcattr @ [NL]) s4))))))"

text \<open>For the proofs: what \<open>do_remove\<close> and \<open>install\<close> write to the file.\<close>

definition user_lines :: "str \<Rightarrow> str" where
  "user_lines data =
     concat (map (\<lambda>line. line @ [NL])
       (filter (\<lambda>line. \<not> sublist cdcline line \<and> \<not> sublist cdcattr line) (splitlines data)))"

definition with_reserved :: "str \<Rightarrow> str" where
  "with_reserved data =
     (if data \<noteq> [] then data @ [NL] else []) @ cdcline @ [NL] @ cdcattr @ [NL]"

definition unset_keys :: "gitconfig \<Rightarrow> gitconfig" where
  "unset_keys c =
     (\<lambda>k. if (k = ''filter.git_fastcdc.process'' \<or> k = ''filter.git_fastcdc.required'')
              \<and> length (c k) = 1 then [] else c k)"

text \<open>For the proofs: the shape of one code point, a text without \<open>\r\<close>, and a text whose
  only line ends are \<open>\n\<close>.\<close>

definition unit_shape :: "codepoint \<Rightarrow> bool" where
  "unit_shape u = (u \<noteq> [] \<and> \<not> is_cont (hd u) \<and> list_all is_cont (tl u))"

definition CR_free :: "str \<Rightarrow> bool" where
  "CR_free t = ([CHR 0x0D] \<notin> set t)"

definition nl_only :: "str \<Rightarrow> bool" where
  "nl_only t = (\<forall>u \<in> set t. is_linebreak u \<longrightarrow> u = NL)"

section \<open>Properties\<close>

subsection \<open>\<open>chunk_string\<close>\<close>

lemma py_range_Nil: "0 < n \<Longrightarrow> py_range 0 n = []"
  by (simp add: py_range_def)

lemma range_count: "0 < n \<Longrightarrow> 0 < L \<Longrightarrow> (L + n - 1) div n = Suc ((L - n + n - 1) div n)"
proof (cases "n \<le> L")
  case True
  assume "0 < n" "0 < L"
  with True have a: "L + n - 1 = (L - 1) + n" by simp
  have b: "((L - 1) + n) div n = Suc ((L - 1) div n)"
    using \<open>0 < n\<close> div_add_self2 [of n "L - 1"] by simp
  have c: "L - n + n - 1 = L - 1" using True by simp
  show ?thesis unfolding a b c ..
next
  case False
  assume "0 < n" "0 < L"
  with False have a: "L - n + n - 1 = n - 1" by simp
  have "(L + n - 1) div n = 1"
    using False \<open>0 < n\<close> \<open>0 < L\<close> by (simp add: div_nat_eqI)
  with a \<open>0 < n\<close> show ?thesis by simp
qed

lemma py_range_step:
  assumes "0 < n" "0 < L"
  shows "py_range L n = 0 # map (\<lambda>i. i + n) (py_range (L - n) n)"
proof -
  let ?k = "(L - n + n - 1) div n"
  have "py_range L n = map (\<lambda>k. k * n) [0 ..< Suc ?k]"
    using range_count [OF assms] by (simp add: py_range_def)
  also have "[0 ..< Suc ?k] = 0 # map Suc [0 ..< ?k]"
    by (simp add: upt_conv_Cons map_Suc_upt del: upt_Suc)
  finally show ?thesis by (simp add: py_range_def comp_def)
qed

lemma slices_Nil: "0 < n \<Longrightarrow> slices [] n = []"
  by (simp add: slices_def py_range_Nil)

lemma slices_step:
  assumes "0 < n" "s \<noteq> []"
  shows "slices s n = take n s # slices (drop n s) n"
proof -
  have "0 < length s" using assms by simp
  then show ?thesis
    using py_range_step [OF assms(1), of "length s"]
    by (simp add: slices_def comp_def add.commute)
qed

lemma concat_slices: "0 < n \<Longrightarrow> concat (slices s n) = s"
proof (induction "length s" arbitrary: s rule: less_induct)
  case less
  show ?case
  proof (cases "s = []")
    case True
    with less.prems show ?thesis by (simp add: slices_Nil)
  next
    case False
    then have "length (drop n s) < length s" using less.prems by simp
    then have "concat (slices (drop n s) n) = drop n s" using less by blast
    with False less.prems show ?thesis by (simp add: slices_step)
  qed
qed

lemma slices_elems: "0 < n \<Longrightarrow> c \<in> set (slices s n) \<Longrightarrow> c \<noteq> [] \<and> length c \<le> n"
proof (induction "length s" arbitrary: s rule: less_induct)
  case less
  show ?case
  proof (cases "s = []")
    case True
    with less.prems show ?thesis by (simp add: slices_Nil)
  next
    case False
    then have l: "length (drop n s) < length s" using less.prems by simp
    from less.prems False have "c = take n s \<or> c \<in> set (slices (drop n s) n)"
      by (simp add: slices_step)
    then show ?thesis
    proof
      assume "c = take n s"
      with False less.prems show ?thesis by simp
    next
      assume "c \<in> set (slices (drop n s) n)"
      with less.hyps [OF l] less.prems show ?thesis by blast
    qed
  qed
qed

lemma slices_full:
  "0 < n \<Longrightarrow> Suc i < length (slices s n) \<Longrightarrow> length (slices s n ! i) = n"
proof (induction "length s" arbitrary: s i rule: less_induct)
  case less
  show ?case
  proof (cases "s = []")
    case True
    with less.prems show ?thesis by (simp add: slices_Nil)
  next
    case False
    then have l: "length (drop n s) < length s" using less.prems by simp
    have st: "slices s n = take n s # slices (drop n s) n"
      using False less.prems by (simp add: slices_step)
    show ?thesis
    proof (cases i)
      case 0
      have "slices (drop n s) n \<noteq> []" using less.prems st 0 by auto
      then have "drop n s \<noteq> []" using less.prems(1) slices_Nil by metis
      then have "n < length s" by simp
      with st 0 show ?thesis by simp
    next
      case (Suc j)
      then have "Suc j < length (slices (drop n s) n)" using less.prems st by simp
      with less.hyps [OF l] less.prems(1) have "length (slices (drop n s) n ! j) = n" by blast
      with st Suc show ?thesis by simp
    qed
  qed
qed

lemma chunk_string_concat: "concat (chunk_string s) = s"
  by (simp add: chunk_string_def concat_slices)

lemma chunk_string_elems: "c \<in> set (chunk_string s) \<Longrightarrow> c \<noteq> [] \<and> length c \<le> 65516"
  using slices_elems [of 65516 c s] by (simp add: chunk_string_def)

lemma chunk_string_small: "s \<noteq> [] \<Longrightarrow> length s \<le> 65516 \<Longrightarrow> chunk_string s = [s]"
  by (simp add: chunk_string_def slices_step slices_Nil)

lemma chunk_string_Nil: "chunk_string [] = []"
  by (simp add: chunk_string_def slices_Nil)

text \<open>
  Claim C10. For every byte string \<open>s\<close>, the list \<open>chunk_string(s)\<close> concatenates back
  to \<open>s\<close> in order, every element is non-empty and at most 65516 long, every element but
  the last is exactly 65516 long, and the list is empty for the empty string.
\<close>

theorem chunk_string_partition:
  "concat (chunk_string s) = s
   \<and> (\<forall>c \<in> set (chunk_string s). c \<noteq> [] \<and> length c \<le> 65516)
   \<and> (\<forall>i. Suc i < length (chunk_string s) \<longrightarrow> length (chunk_string s ! i) = 65516)
   \<and> chunk_string ([] :: 'a list) = []"
proof (intro conjI ballI allI impI)
  show "concat (chunk_string s) = s" by (rule chunk_string_concat)
next
  fix c assume "c \<in> set (chunk_string s)"
  then show "c \<noteq> []" and "length c \<le> 65516" using chunk_string_elems by blast+
next
  fix i assume "Suc i < length (chunk_string s)"
  then show "length (chunk_string s ! i) = 65516"
    using slices_full [of 65516 i s] by (simp add: chunk_string_def)
next
  show "chunk_string ([] :: 'a list) = []" by (rule chunk_string_Nil)
qed

text \<open>A string of 65517 bytes: two chunks, the first of them full.\<close>

theorem chunk_string_partition_witness:
  "length (chunk_string (replicate 65517 (CHR ''a''))) = 2
   \<and> chunk_string (replicate 65517 (CHR ''a'')) ! 0 \<in> set (chunk_string (replicate 65517 (CHR ''a'')))
   \<and> length (chunk_string (replicate 65517 (CHR ''a'')) ! 0) = 65516
   \<and> concat (chunk_string (replicate 65517 (CHR ''a''))) = replicate 65517 (CHR ''a'')"
proof -
  let ?s = "replicate 65517 (CHR ''a'')"
  have len: "length (chunk_string ?s) = 2"
    by (simp add: chunk_string_def slices_def py_range_def)
  then have two: "Suc 0 < length (chunk_string ?s)" by simp
  have mem: "chunk_string ?s ! 0 \<in> set (chunk_string ?s)"
    by (rule nth_mem) (simp only: len)
  have "concat (chunk_string ?s) = ?s" using chunk_string_partition [of ?s] by blast
  moreover have "length (chunk_string ?s ! 0) = 65516"
    using chunk_string_partition [of ?s] two by blast
  ultimately show ?thesis using len mem by blast
qed

subsection \<open>The adaptive average chunk size\<close>

lemma bit_length_le: "n < 2 ^ k \<Longrightarrow> bit_length n \<le> k"
proof (induction k arbitrary: n)
  case 0
  then show ?case by (simp add: bit_length.simps)
next
  case (Suc k)
  then have "n div 2 < 2 ^ k" by simp
  then have "bit_length (n div 2) \<le> k" by (rule Suc.IH)
  then show ?case by (subst bit_length.simps) simp
qed

lemma bit_length_upper: "n < 2 ^ bit_length n"
proof (induction n rule: bit_length.induct)
  case (1 n)
  show ?case
  proof (cases "n = 0")
    case True
    then show ?thesis by simp
  next
    case False
    with 1 have "n div 2 < 2 ^ bit_length (n div 2)" by simp
    then have "n < 2 * 2 ^ bit_length (n div 2)" by linarith
    with False show ?thesis by (subst bit_length.simps) simp
  qed
qed

lemma bit_length_lower: "0 < n \<Longrightarrow> 2 ^ (bit_length n - 1) \<le> n"
proof (induction n rule: bit_length.induct)
  case (1 n)
  show ?case
  proof (cases "n div 2 = 0")
    case True
    with 1(2) have "n = 1" by (simp add: div_eq_0_iff)
    then show ?thesis by (simp add: bit_length.simps)
  next
    case False
    with 1 have ih: "2 ^ (bit_length (n div 2) - 1) \<le> n div 2" by simp
    have pos: "0 < bit_length (n div 2)" using False by (subst bit_length.simps) simp
    have "bit_length n = Suc (bit_length (n div 2))" using 1(2) by (subst bit_length.simps) simp
    then have "(2::nat) ^ (bit_length n - 1) = 2 * 2 ^ (bit_length (n div 2) - 1)"
      using pos by (cases "bit_length (n div 2)") simp_all
    with ih show ?thesis by linarith
  qed
qed

lemma bit_length_mono: "a \<le> b \<Longrightarrow> bit_length a \<le> bit_length b"
proof -
  assume "a \<le> b"
  then have "a < 2 ^ bit_length b" using bit_length_upper [of b] by linarith
  then show ?thesis by (rule bit_length_le)
qed

lemma get_avg_size_eq:
  "get_avg_size sz = (case int_true_div_32 sz of Inl e \<Rightarrow> Inl e | Inr box \<Rightarrow> Inr (top_bits box))"
proof -
  have "nat (max (int (bit_length b) - 5) 0) = bit_length b - 5" for b by simp
  then show ?thesis
    by (simp add: get_avg_size_def top_bits_def Let_def push_bit_eq_mult drop_bit_eq_div
        split: sum.splits)
qed

lemma quantize_eq: "quantize n = top_bits (n div 32)"
  by (simp add: quantize_def top_bits_def Let_def push_bit_eq_mult drop_bit_eq_div)

lemma top_bits_le: "top_bits b \<le> b"
  by (simp add: top_bits_def)

lemma floor_multiple_ge:
  fixes u :: nat
  assumes "k * u \<le> b" "0 < u"
  shows "k * u \<le> (b div u) * u"
proof -
  have "k \<le> b div u" using assms by (simp add: less_eq_div_iff_mult_less_eq)
  then show ?thesis by simp
qed

lemma top_bits_lower: "0 < b \<Longrightarrow> 2 ^ (bit_length b - 1) \<le> top_bits b"
proof -
  assume pos: "0 < b"
  let ?L = "bit_length b"
  have le: "?L - 5 \<le> ?L - 1" by simp
  have "(2::nat) ^ (?L - 1) = 2 ^ (?L - 1 - (?L - 5)) * 2 ^ (?L - 5)"
    using le by (simp flip: power_add)
  moreover have "(2::nat) ^ (?L - 1 - (?L - 5)) * 2 ^ (?L - 5) \<le> (b div 2 ^ (?L - 5)) * 2 ^ (?L - 5)"
    using bit_length_lower [OF pos] calculation by (intro floor_multiple_ge) simp_all
  ultimately show ?thesis by (simp add: top_bits_def)
qed

lemma top_bits_mono: "a \<le> b \<Longrightarrow> top_bits a \<le> top_bits b"
proof -
  assume ab: "a \<le> b"
  have L: "bit_length a \<le> bit_length b" using ab by (rule bit_length_mono)
  show ?thesis
  proof (cases "bit_length a - 5 = bit_length b - 5")
    case True
    have "a div 2 ^ (bit_length b - 5) \<le> b div 2 ^ (bit_length b - 5)"
      using ab by (rule div_le_mono)
    then show ?thesis by (simp add: top_bits_def True)
  next
    case False
    with L have lt: "bit_length a < bit_length b" by linarith
    then have pos: "0 < b" by (cases "b = 0") (simp_all add: bit_length.simps)
    have "top_bits a \<le> a" by (rule top_bits_le)
    also have "a < 2 ^ bit_length a" by (rule bit_length_upper)
    also have "(2::nat) ^ bit_length a \<le> 2 ^ (bit_length b - 1)"
      using lt by (intro power_increasing) simp_all
    also have "\<dots> \<le> top_bits b" using pos by (rule top_bits_lower)
    finally show ?thesis by simp
  qed
qed

lemma small_exact: "n < 2 ^ 53 \<Longrightarrow> int_true_div_32 n = Inr (n div 32)"
proof -
  assume a: "n < 2 ^ 53"
  then have "bit_length n \<le> 53" by (rule bit_length_le)
  moreover have "\<not> (2::nat) ^ 1029 \<le> n" using a by simp
  ultimately show ?thesis by (simp add: int_true_div_32_def float_significand_def)
qed

lemma round_to_multiple_lower: "(n div u) * u \<le> round_to_multiple u n"
  by (simp add: round_to_multiple_def Let_def)

lemma round_to_multiple_upper: "round_to_multiple u n \<le> (n div u + 1) * u"
  by (simp add: round_to_multiple_def Let_def)

lemma round_to_multiple_mono:
  assumes "0 < u" "a \<le> b"
  shows "round_to_multiple u a \<le> round_to_multiple u b"
proof (cases "a div u = b div u")
  case True
  have "a mod u \<le> b mod u"
  proof -
    have "a = (a div u) * u + a mod u" by simp
    moreover have "b = (a div u) * u + b mod u" unfolding True by simp
    ultimately show ?thesis using assms(2) by linarith
  qed
  then show ?thesis
    using True by (auto simp add: round_to_multiple_def Let_def)
next
  case False
  have "a div u \<le> b div u" using assms(2) by (rule div_le_mono)
  with False have "a div u + 1 \<le> b div u" by simp
  then have "(a div u + 1) * u \<le> (b div u) * u" by (rule mult_le_mono1)
  with round_to_multiple_upper [of u a] round_to_multiple_lower [of b u]
  show ?thesis by linarith
qed

lemma round_below_power:
  assumes "e \<le> L" "n < 2 ^ L"
  shows "round_to_multiple (2 ^ e) n \<le> 2 ^ L"
proof -
  have split: "(2::nat) ^ L = 2 ^ (L - e) * 2 ^ e"
    using assms(1) by (simp flip: power_add)
  have "n div 2 ^ e < 2 ^ (L - e)"
    using assms(2) split by (simp add: less_mult_imp_div_less)
  then have "n div 2 ^ e + 1 \<le> 2 ^ (L - e)" by simp
  then have "(n div 2 ^ e + 1) * 2 ^ e \<le> 2 ^ (L - e) * 2 ^ e" by (rule mult_le_mono1)
  with round_to_multiple_upper [of "2 ^ e" n] split show ?thesis by simp
qed

lemma round_above_power:
  assumes "e \<le> k" "2 ^ k \<le> n"
  shows "2 ^ k \<le> round_to_multiple (2 ^ e) n"
proof -
  have split: "(2::nat) ^ k = 2 ^ (k - e) * 2 ^ e"
    using assms(1) by (simp flip: power_add)
  have "2 ^ (k - e) * 2 ^ e \<le> (n div 2 ^ e) * (2::nat) ^ e"
    using assms(2) split by (intro floor_multiple_ge) simp_all
  also have "\<dots> \<le> round_to_multiple (2 ^ e) n" by (rule round_to_multiple_lower)
  finally show ?thesis unfolding split .
qed

lemma float_significand_upper: "float_significand n \<le> 2 ^ bit_length n"
proof (cases "bit_length n \<le> 53")
  case True
  then show ?thesis using bit_length_upper [of n] by (simp add: float_significand_def)
next
  case False
  have "round_to_multiple (2 ^ (bit_length n - 53)) n \<le> 2 ^ bit_length n"
    by (rule round_below_power) (simp_all add: bit_length_upper)
  with False show ?thesis by (simp add: float_significand_def)
qed

lemma float_significand_lower: "0 < n \<Longrightarrow> 2 ^ (bit_length n - 1) \<le> float_significand n"
proof (cases "bit_length n \<le> 53")
  case True
  assume "0 < n"
  then show ?thesis using True bit_length_lower [of n] by (simp add: float_significand_def)
next
  case False
  assume pos: "0 < n"
  have "2 ^ (bit_length n - 1) \<le> round_to_multiple (2 ^ (bit_length n - 53)) n"
    using bit_length_lower [OF pos] by (intro round_above_power) simp_all
  with False show ?thesis by (simp add: float_significand_def)
qed

lemma float_significand_mono:
  assumes "a \<le> b"
  shows "float_significand a \<le> float_significand b"
proof (cases "bit_length a = bit_length b")
  case True
  show ?thesis
  proof (cases "bit_length b \<le> 53")
    case True
    with \<open>bit_length a = bit_length b\<close> assms show ?thesis by (simp add: float_significand_def)
  next
    case False
    with \<open>bit_length a = bit_length b\<close> assms show ?thesis
      by (simp add: float_significand_def round_to_multiple_mono)
  qed
next
  case False
  with bit_length_mono [OF assms] have lt: "bit_length a < bit_length b" by simp
  then have pos: "0 < b" by (cases "b = 0") (simp_all add: bit_length.simps)
  have "float_significand a \<le> 2 ^ bit_length a" by (rule float_significand_upper)
  also have "(2::nat) ^ bit_length a \<le> 2 ^ (bit_length b - 1)"
    using lt by (intro power_increasing) simp_all
  also have "\<dots> \<le> float_significand b" using pos by (rule float_significand_lower)
  finally show ?thesis .
qed

lemma clean_avg_size_mono:
  assumes "m \<le> n" "clean_avg_size m = Inr a" "clean_avg_size n = Inr b"
  shows "a \<le> b"
proof -
  have q: "float_significand m div 32 \<le> float_significand n div 32"
    using float_significand_mono [OF assms(1)] by (rule div_le_mono)
  from assms(2) have a: "a = max avg_min (top_bits (float_significand m div 32))"
    by (auto simp add: clean_avg_size_def get_avg_size_eq int_true_div_32_def Let_def
        split: if_splits sum.splits)
  from assms(3) have b: "b = max avg_min (top_bits (float_significand n div 32))"
    by (auto simp add: clean_avg_size_def get_avg_size_eq int_true_div_32_def Let_def
        split: if_splits sum.splits)
  from top_bits_mono [OF q] show ?thesis unfolding a b by simp
qed

lemma clean_avg_size_small:
  assumes "n < 2 ^ 53"
  shows "clean_avg_size n = Inr (spec_avg_size n)"
  using small_exact [OF assms]
  by (simp add: clean_avg_size_def get_avg_size_eq spec_avg_size_def quantize_eq avg_min_def)

lemma clean_avg_size_total:
  assumes "n < 2 ^ 1028"
  shows "\<exists>a. clean_avg_size n = Inr a"
proof -
  have "bit_length n \<le> 1028" using assms by (rule bit_length_le)
  then have "(2::nat) ^ bit_length n \<le> 2 ^ 1028" by (intro power_increasing) simp_all
  with float_significand_upper [of n] have "float_significand n \<le> 2 ^ 1028" by linarith
  moreover have "(2::nat) ^ 1028 < 2 ^ 1029" by (intro power_strict_increasing) simp_all
  ultimately have "\<not> (2::nat) ^ 1029 \<le> float_significand n" by linarith
  then show ?thesis
    by (simp add: clean_avg_size_def get_avg_size_eq int_true_div_32_def Let_def)
qed

text \<open>
  The source computes \<open>box\<close> as \<open>int(size / 32)\<close>: a division of floats, truncated. The
  quotient is exact for every size below \<open>2 ^ 53\<close> bytes (8 PiB), where it is the integer
  quotient. Beyond that, far above any payload, the float rounds: at \<open>17 * 2 ^ 49 - 1\<close>
  bytes the quotient is rounded up to \<open>17 * 2 ^ 44\<close>, which is then the average, where the
  integer quotient has the average \<open>2 ^ 48\<close>.
\<close>

lemma float_quotient_rounds:
  "clean_avg_size 9570149208162303 = Inr 299067162755072
   \<and> spec_avg_size 9570149208162303 = 281474976710656"
  by (simp add: clean_avg_size_def get_avg_size_eq int_true_div_32_def float_significand_def
      round_to_multiple_def spec_avg_size_def quantize_eq top_bits_def bit_length.simps
      avg_min_def Let_def)

text \<open>
  Claim C2. For every input length \<open>n\<close> that a payload can have, which is every length
  below \<open>2 ^ 53\<close> bytes, the average chunk size used by the clean handlers is
  \<open>max(131072, (box >> shift) << shift)\<close> with \<open>box = n / 32\<close> by integer division,
  \<open>bits\<close> the bit length of \<open>box\<close> and \<open>shift = max(bits - 5, 0)\<close>; and the average the
  handlers compute is monotonic non-decreasing in \<open>n\<close>, for all lengths.
\<close>

theorem adaptive_average:
  "(n < 2 ^ 53 \<longrightarrow> clean_avg_size n = Inr (spec_avg_size n))
   \<and> (m \<le> n \<and> clean_avg_size m = Inr a \<and> clean_avg_size n = Inr b \<longrightarrow> a \<le> b)"
  using clean_avg_size_small [of n] clean_avg_size_mono [of m n a b]
  by blast

theorem adaptive_average_witness:
  "(10000000 :: nat) < 2 ^ 53 \<and> clean_avg_size 10000000 = Inr 311296
   \<and> spec_avg_size 10000000 = 311296
   \<and> (5000000 :: nat) \<le> 10000000 \<and> clean_avg_size 5000000 = Inr 155648
   \<and> (155648 :: nat) \<le> 311296"
proof -
  have s: "spec_avg_size 10000000 = 311296" "spec_avg_size 5000000 = 155648"
    by (simp_all add: spec_avg_size_def quantize_eq top_bits_def bit_length.simps)
  have "(10000000 :: nat) < 2 ^ 53" "(5000000 :: nat) < 2 ^ 53" by simp_all
  with adaptive_average [of 10000000 5000000 155648 311296]
    adaptive_average [of 5000000 5000000 155648 155648] s
  show ?thesis by simp
qed

subsection \<open>Packet framing\<close>

lemma py_int16_error: "py_int16 b = Inl e \<Longrightarrow> e = ValueError"
  by (auto simp add: py_int16_def Let_def split: if_splits option.splits prod.splits)

lemma read_4_full:
  "4 \<le> length (stdin w) \<Longrightarrow>
   read 4 w = (Inr (take 4 (stdin w)), w\<lparr>stdin := drop 4 (stdin w)\<rparr>)"
  by (simp add: read_def)

lemma read_pkt_line_full:
  assumes "4 \<le> length (stdin w)"
  shows "read_pkt_line w =
     (case py_int16 (take 4 (stdin w)) of
        Inl e \<Rightarrow> (Inl e, w\<lparr>stdin := drop 4 (stdin w)\<rparr>)
      | Inr len \<Rightarrow>
          if len = 0 then (Inr [], w\<lparr>stdin := drop 4 (stdin w)\<rparr>)
          else read (len - 4) (w\<lparr>stdin := drop 4 (stdin w)\<rparr>))"
proof -
  have "take 4 (stdin w) \<noteq> []" using assms by auto
  then show ?thesis
    by (simp add: read_pkt_line_def read_4_full [OF assms] split: sum.splits)
qed

text \<open>
  Claim C4 says that a malformed length prefix, a short read within a packet and an I/O
  failure are each fatal, and that \<open>read_pkt_line\<close> never returns a payload shorter
  than the declared length. With the input \<open>0009ab\<close> and then the end of the stream, the
  prefix declares five bytes of payload and \<open>read_pkt_line\<close> returns the two that are
  there, without an error.
\<close>

theorem framing_short_read_counterexample:
  "fst (read_pkt_line \<lparr>stdin = ''0009ab'', stdin_fails = False, stdout = [],
          files = Map.empty, ondisk_cache = None\<rparr>) = Inr ''ab''
   \<and> py_int16 ''0009'' = Inr 9
   \<and> length ''ab'' < nat (9 - 4)"
  by (simp add: read_pkt_line_def read_def py_int16_def is_space_byte_def byte_def
      hex_digit_value_def)

text \<open>
  Claim C4, amended. A length prefix that \<open>int(x, 16)\<close> refuses raises \<open>ValueError\<close>,
  and so does a prefix that declares a length of 1 or 2 or a negative length, for which
  \<open>read\<close> refuses its size; an I/O failure of the stream before the bytes asked for are
  there raises \<open>OSError\<close>: each ends the session. When the stream ends without a failure,
  \<open>read_pkt_line\<close> returns the bytes that are left, at most \<open>length - 4\<close> of them for a
  declared length of at least 4 and all of them for a declared length of 3; a short read
  is not detected.
\<close>

theorem framing_failures:
  "(stdin w \<noteq> [] \<and> (4 \<le> length (stdin w) \<or> \<not> stdin_fails w)
      \<and> py_int16 (take 4 (stdin w)) = Inl e
    \<longrightarrow> fst (read_pkt_line w) = Inl ValueError)
   \<and> (4 \<le> length (stdin w) \<and> py_int16 (take 4 (stdin w)) = Inr n
      \<and> n < 3 \<and> n \<noteq> 0
    \<longrightarrow> fst (read_pkt_line w) = Inl ValueError)
   \<and> (stdin_fails w \<and> length (stdin w) < 4 \<longrightarrow> fst (read_pkt_line w) = Inl OSError)
   \<and> (stdin_fails w \<and> 4 \<le> length (stdin w) \<and> py_int16 (take 4 (stdin w)) = Inr n
      \<and> (n = 3 \<or> 4 \<le> n \<and> int (length (stdin w)) < n)
    \<longrightarrow> fst (read_pkt_line w) = Inl OSError)
   \<and> (\<not> stdin_fails w \<and> 4 \<le> length (stdin w) \<and> py_int16 (take 4 (stdin w)) = Inr n
      \<and> 4 \<le> n
    \<longrightarrow> fst (read_pkt_line w) = Inr (take (nat (n - 4)) (drop 4 (stdin w))))
   \<and> (\<not> stdin_fails w \<and> 4 \<le> length (stdin w) \<and> py_int16 (take 4 (stdin w)) = Inr n
      \<and> n = 3
    \<longrightarrow> fst (read_pkt_line w) = Inr (drop 4 (stdin w)))"
proof (intro conjI impI)
  assume a: "stdin w \<noteq> [] \<and> (4 \<le> length (stdin w) \<or> \<not> stdin_fails w)
      \<and> py_int16 (take 4 (stdin w)) = Inl e"
  then have e: "e = ValueError" using py_int16_error by blast
  show "fst (read_pkt_line w) = Inl ValueError"
  proof (cases "4 \<le> length (stdin w)")
    case True
    with a e show ?thesis by (simp add: read_pkt_line_full)
  next
    case False
    with a e show ?thesis by (simp add: read_pkt_line_def read_def)
  qed
next
  assume "4 \<le> length (stdin w) \<and> py_int16 (take 4 (stdin w)) = Inr n \<and> n < 3 \<and> n \<noteq> 0"
  then show "fst (read_pkt_line w) = Inl ValueError"
    by (simp add: read_pkt_line_full read_def)
next
  assume "stdin_fails w \<and> length (stdin w) < 4"
  then show "fst (read_pkt_line w) = Inl OSError"
    by (simp add: read_pkt_line_def read_def)
next
  assume "stdin_fails w \<and> 4 \<le> length (stdin w) \<and> py_int16 (take 4 (stdin w)) = Inr n
      \<and> (n = 3 \<or> 4 \<le> n \<and> int (length (stdin w)) < n)"
  then show "fst (read_pkt_line w) = Inl OSError"
    by (auto simp add: read_pkt_line_full read_def)
next
  assume "\<not> stdin_fails w \<and> 4 \<le> length (stdin w) \<and> py_int16 (take 4 (stdin w)) = Inr n
      \<and> 4 \<le> n"
  then show "fst (read_pkt_line w) = Inr (take (nat (n - 4)) (drop 4 (stdin w)))"
    by (auto simp add: read_pkt_line_full read_def)
next
  assume "\<not> stdin_fails w \<and> 4 \<le> length (stdin w) \<and> py_int16 (take 4 (stdin w)) = Inr n
      \<and> n = 3"
  then show "fst (read_pkt_line w) = Inr (drop 4 (stdin w))"
    by (auto simp add: read_pkt_line_full read_def)
qed

theorem framing_failures_witness:
  "fst (read_pkt_line \<lparr>stdin = ''00zz'', stdin_fails = False, stdout = [],
          files = Map.empty, ondisk_cache = None\<rparr>) = Inl ValueError
   \<and> fst (read_pkt_line \<lparr>stdin = ''0002abcdef'', stdin_fails = False, stdout = [],
          files = Map.empty, ondisk_cache = None\<rparr>) = Inl ValueError
   \<and> fst (read_pkt_line \<lparr>stdin = ''00'', stdin_fails = True, stdout = [],
          files = Map.empty, ondisk_cache = None\<rparr>) = Inl OSError
   \<and> fst (read_pkt_line \<lparr>stdin = ''0009ab'', stdin_fails = True, stdout = [],
          files = Map.empty, ondisk_cache = None\<rparr>) = Inl OSError
   \<and> fst (read_pkt_line \<lparr>stdin = ''0009ab'', stdin_fails = False, stdout = [],
          files = Map.empty, ondisk_cache = None\<rparr>) = Inr ''ab''
   \<and> fst (read_pkt_line \<lparr>stdin = ''0003abcdef'', stdin_fails = False, stdout = [],
          files = Map.empty, ondisk_cache = None\<rparr>) = Inr ''abcdef''"
proof -
  have i: "py_int16 ''00zz'' = Inl ValueError" "py_int16 ''0009'' = Inr 9"
    "py_int16 ''0002'' = Inr 2" "py_int16 ''0003'' = Inr 3"
    by (simp_all add: py_int16_def is_space_byte_def byte_def hex_digit_value_def)
  show ?thesis
    using i
      framing_failures [of "\<lparr>stdin = ''00zz'', stdin_fails = False, stdout = [],
          files = Map.empty, ondisk_cache = None\<rparr>" ValueError 0]
      framing_failures [of "\<lparr>stdin = ''0002abcdef'', stdin_fails = False, stdout = [],
          files = Map.empty, ondisk_cache = None\<rparr>" ValueError 2]
      framing_failures [of "\<lparr>stdin = ''00'', stdin_fails = True, stdout = [],
          files = Map.empty, ondisk_cache = None\<rparr>" ValueError 0]
      framing_failures [of "\<lparr>stdin = ''0009ab'', stdin_fails = True, stdout = [],
          files = Map.empty, ondisk_cache = None\<rparr>" ValueError 9]
      framing_failures [of "\<lparr>stdin = ''0009ab'', stdin_fails = False, stdout = [],
          files = Map.empty, ondisk_cache = None\<rparr>" ValueError 9]
      framing_failures [of "\<lparr>stdin = ''0003abcdef'', stdin_fails = False, stdout = [],
          files = Map.empty, ondisk_cache = None\<rparr>" ValueError 3]
    by simp
qed

subsection \<open>Writing a packet and reading it back\<close>

lemma below_16: "(d::nat) < 16 \<Longrightarrow>
  d = 0 \<or> d = 1 \<or> d = 2 \<or> d = 3 \<or> d = 4 \<or> d = 5 \<or> d = 6 \<or> d = 7 \<or>
  d = 8 \<or> d = 9 \<or> d = 10 \<or> d = 11 \<or> d = 12 \<or> d = 13 \<or> d = 14 \<or> d = 15"
  by (simp add: numeral_eq_Suc less_Suc_eq)

lemma hexchar_props:
  assumes "d < 16"
  shows "hex_digit_value (hexchar d) = Some d"
    and "hexchar d \<noteq> CHR ''_''" and "hexchar d \<noteq> CHR ''+''" and "hexchar d \<noteq> CHR ''-''"
    and "hexchar d \<noteq> CHR ''x''" and "hexchar d \<noteq> CHR ''X''"
    and "\<not> is_space_byte (hexchar d)"
  using below_16 [OF assms]
  by (auto simp add: hexchar_def hex_digit_value_def byte_def is_space_byte_def)

lemma hexstr_digit: "n < 16 \<Longrightarrow> hexstr n = [hexchar n]"
  by (simp add: hexstr.simps)

lemma hexstr_step: "\<not> n < 16 \<Longrightarrow> hexstr n = hexstr (n div 16) @ [hexchar (n mod 16)]"
  by (subst hexstr.simps) simp

lemma format_04x_digits:
  assumes "n < 65536"
  shows "format_04x n =
    [hexchar (n div 16 div 16 div 16), hexchar (n div 16 div 16 mod 16),
     hexchar (n div 16 mod 16), hexchar (n mod 16)]"
proof -
  have z: "hexchar 0 = CHR ''0''" by (simp add: hexchar_def)
  have rep: "replicate 3 x = [x, x, x]" "replicate 2 x = [x, x]" "replicate (Suc 0) x = [x]"
    for x :: char
    by (simp_all add: numeral_eq_Suc)
  have top: "n div 16 div 16 div 16 < 16" using assms by (simp add: div_less_iff_less_mult)
  show ?thesis
  proof (cases "n < 16")
    case True
    then show ?thesis by (simp add: format_04x_def hexstr_digit z rep)
  next
    case n1: False
    show ?thesis
    proof (cases "n div 16 < 16")
      case True
      with n1 show ?thesis
        by (simp add: format_04x_def hexstr_step [of n] hexstr_digit z rep)
    next
      case n2: False
      show ?thesis
      proof (cases "n div 16 div 16 < 16")
        case True
        with n1 n2 show ?thesis
          by (simp add: format_04x_def hexstr_step [of n] hexstr_step [of "n div 16"]
              hexstr_digit z rep)
      next
        case n3: False
        with n1 n2 top show ?thesis
          by (simp add: format_04x_def hexstr_step [of n] hexstr_step [of "n div 16"]
              hexstr_step [of "n div 16 div 16"] hexstr_digit)
      qed
    qed
  qed
qed

lemma py_int16_digits:
  assumes "a < 16" "b < 16" "c < 16" "d < 16"
  shows "py_int16 [hexchar a, hexchar b, hexchar c, hexchar d] =
         Inr (int (((a * 16 + b) * 16 + c) * 16 + d))"
  using hexchar_props [OF assms(1)] hexchar_props [OF assms(2)]
    hexchar_props [OF assms(3)] hexchar_props [OF assms(4)]
  by (simp add: py_int16_def Let_def)

lemma py_int16_format:
  assumes "n < 65536"
  shows "py_int16 (format_04x n) = Inr (int n)"
proof -
  have d: "n div 16 div 16 div 16 < 16" "n div 16 div 16 mod 16 < 16" "n div 16 mod 16 < 16"
    "n mod 16 < 16"
    using assms by (simp_all add: div_less_iff_less_mult)
  have "((n div 16 div 16 div 16 * 16 + n div 16 div 16 mod 16) * 16 + n div 16 mod 16) * 16
          + n mod 16 = n"
    by simp
  with py_int16_digits [OF d] show ?thesis by (simp only: format_04x_digits [OF assms])
qed

lemma format_04x_length: "n < 65536 \<Longrightarrow> length (format_04x n) = 4"
  by (simp add: format_04x_digits)

lemma read_pkt_line_packet:
  assumes "p \<noteq> []" "length p + 4 < 65536" "stdin w = pkt_line p @ rest"
  shows "read_pkt_line w = (Inr p, w\<lparr>stdin := rest\<rparr>)"
proof -
  have l: "length (format_04x (length p + 4)) = 4" using assms(2) by (rule format_04x_length)
  have t: "take 4 (stdin w) = format_04x (length p + 4)"
    "drop 4 (stdin w) = p @ rest" "4 \<le> length (stdin w)"
    using l by (simp_all add: assms(3) pkt_line_def)
  show ?thesis
    using py_int16_format [OF assms(2)] assms(1)
    by (simp add: read_pkt_line_full [OF t(3)] t read_def)
qed

lemma read_pkt_line_flush:
  assumes "stdin w = ''0000'' @ rest"
  shows "read_pkt_line w = (Inr [], w\<lparr>stdin := rest\<rparr>)"
proof -
  have i: "py_int16 ''0000'' = Inr 0"
    by (simp add: py_int16_def is_space_byte_def byte_def hex_digit_value_def)
  have t: "4 \<le> length (stdin w)" by (simp add: assms)
  show ?thesis using i by (simp add: read_pkt_line_full [OF t] assms)
qed

lemma read_payload_framed:
  assumes "\<forall>p \<in> set ps. p \<noteq> [] \<and> length p + 4 < 65536"
    and "stdin w = concat (map pkt_line ps) @ ''0000'' @ rest"
  shows "read_payload w = (ps, None, w\<lparr>stdin := rest\<rparr>)"
  using assms
proof (induction ps arbitrary: w)
  case Nil
  then have "read_pkt_line w = (Inr [], w\<lparr>stdin := rest\<rparr>)"
    by (intro read_pkt_line_flush) simp
  then show ?case by (subst read_payload.simps) simp
next
  case (Cons p ps)
  let ?w1 = "w\<lparr>stdin := concat (map pkt_line ps) @ ''0000'' @ rest\<rparr>"
  have r: "read_pkt_line w = (Inr p, ?w1)"
    using Cons.prems by (intro read_pkt_line_packet) simp_all
  have "read_payload ?w1 = (ps, None, ?w1\<lparr>stdin := rest\<rparr>)"
    using Cons.prems by (intro Cons.IH) simp_all
  with r Cons.prems show ?case by (subst read_payload.simps) simp
qed

subsection \<open>Evaluation on concrete inputs\<close>

lemmas packet_eval =
  read_pkt_line_def read_def py_int16_def is_space_byte_def byte_def hex_digit_value_def
  write_pkt_line_str_def write_pkt_line_def pkt_line_def write_bytes_def flush_pkt_def
  status_success_def NL_def encode_def hexchar_def lit_def decode_def wf_codepoint_def
  is_cont_def strip_def is_whitespace_def read_pkt_line_str_def framed_def response_def
  format_04x_digits

lemmas path_eval =
  Path_def path_name_def path_suffix_def path_stem_def rfind_dot_def with_suffix_def
  truediv_def hash_dir_def cdcdir_def tmpfile_def path_str_def

lemmas avg_eval =
  clean_avg_size_def get_avg_size_def int_true_div_32_def float_significand_def
  bit_length.simps avg_min_def

subsection \<open>The temporary file of the on-disk clean handler\<close>

text \<open>
  Claim C9. On every exit path of the on-disk clean handler (normal completion, an error
  while receiving the payload, an error while chunking, hashing or storing) the
  temporary file \<open>.fast_cdc_tmp_file_29310b6\<close> does not exist once the handler has
  returned or has let its exception through.
\<close>

theorem tmpfile_removed:
  "files (snd (clean_ondisk E pathname w)) tmpfile = None"
  by (simp add: clean_ondisk_def split: prod.splits)

text \<open>
  Three runs on the payload \<open>ab\<close>: one that completes, one where storing the chunk fails,
  and one where the input ends in an I/O failure.
\<close>

theorem tmpfile_removed_witness:
  "fst (clean_ondisk
      \<lparr>hash_object = (\<lambda>data. Inr ''00ab''), cat_file = (\<lambda>hash. Inl CalledProcessError),
        fastcdc = (\<lambda>data avg. ([(0, length data)], None)), config_ondisk = ''true''\<rparr>
      (Path (lit ''big.bin''))
      \<lparr>stdin = ''0006ab0000'', stdin_fails = False, stdout = [], files = Map.empty,
        ondisk_cache = None\<rparr>) = Inr True
   \<and> files (snd (clean_ondisk
      \<lparr>hash_object = (\<lambda>data. Inr ''00ab''), cat_file = (\<lambda>hash. Inl CalledProcessError),
        fastcdc = (\<lambda>data avg. ([(0, length data)], None)), config_ondisk = ''true''\<rparr>
      (Path (lit ''big.bin''))
      \<lparr>stdin = ''0006ab0000'', stdin_fails = False, stdout = [], files = Map.empty,
        ondisk_cache = None\<rparr>)) tmpfile = None
   \<and> fst (clean_ondisk
      \<lparr>hash_object = (\<lambda>data. Inl CalledProcessError), cat_file = (\<lambda>hash. Inl CalledProcessError),
        fastcdc = (\<lambda>data avg. ([(0, length data)], None)), config_ondisk = ''true''\<rparr>
      (Path (lit ''big.bin''))
      \<lparr>stdin = ''0006ab0000'', stdin_fails = False, stdout = [], files = Map.empty,
        ondisk_cache = None\<rparr>) = Inl CalledProcessError
   \<and> files (snd (clean_ondisk
      \<lparr>hash_object = (\<lambda>data. Inl CalledProcessError), cat_file = (\<lambda>hash. Inl CalledProcessError),
        fastcdc = (\<lambda>data avg. ([(0, length data)], None)), config_ondisk = ''true''\<rparr>
      (Path (lit ''big.bin''))
      \<lparr>stdin = ''0006ab0000'', stdin_fails = False, stdout = [], files = Map.empty,
        ondisk_cache = None\<rparr>)) tmpfile = None
   \<and> fst (clean_ondisk
      \<lparr>hash_object = (\<lambda>data. Inr ''00ab''), cat_file = (\<lambda>hash. Inl CalledProcessError),
        fastcdc = (\<lambda>data avg. ([(0, length data)], None)), config_ondisk = ''true''\<rparr>
      (Path (lit ''big.bin''))
      \<lparr>stdin = ''0006ab'', stdin_fails = True, stdout = [], files = Map.empty,
        ondisk_cache = None\<rparr>) = Inl OSError
   \<and> files (snd (clean_ondisk
      \<lparr>hash_object = (\<lambda>data. Inr ''00ab''), cat_file = (\<lambda>hash. Inl CalledProcessError),
        fastcdc = (\<lambda>data avg. ([(0, length data)], None)), config_ondisk = ''true''\<rparr>
      (Path (lit ''big.bin''))
      \<lparr>stdin = ''0006ab'', stdin_fails = True, stdout = [], files = Map.empty,
        ondisk_cache = None\<rparr>)) tmpfile = None"
proof -
  have run: "fst (clean_ondisk
      \<lparr>hash_object = (\<lambda>data. Inr ''00ab''), cat_file = (\<lambda>hash. Inl CalledProcessError),
        fastcdc = (\<lambda>data avg. ([(0, length data)], None)), config_ondisk = ''true''\<rparr>
      (Path (lit ''big.bin''))
      \<lparr>stdin = ''0006ab0000'', stdin_fails = False, stdout = [], files = Map.empty,
        ondisk_cache = None\<rparr>) = Inr True"
    "fst (clean_ondisk
      \<lparr>hash_object = (\<lambda>data. Inl CalledProcessError), cat_file = (\<lambda>hash. Inl CalledProcessError),
        fastcdc = (\<lambda>data avg. ([(0, length data)], None)), config_ondisk = ''true''\<rparr>
      (Path (lit ''big.bin''))
      \<lparr>stdin = ''0006ab0000'', stdin_fails = False, stdout = [], files = Map.empty,
        ondisk_cache = None\<rparr>) = Inl CalledProcessError"
    "fst (clean_ondisk
      \<lparr>hash_object = (\<lambda>data. Inr ''00ab''), cat_file = (\<lambda>hash. Inl CalledProcessError),
        fastcdc = (\<lambda>data avg. ([(0, length data)], None)), config_ondisk = ''true''\<rparr>
      (Path (lit ''big.bin''))
      \<lparr>stdin = ''0006ab'', stdin_fails = True, stdout = [], files = Map.empty,
        ondisk_cache = None\<rparr>) = Inl OSError"
    by (simp_all add: clean_ondisk_def clean_ondisk_try_def read_payload.simps
        chunk_and_store_def git_hash_blob_def strip_bytes_def packet_eval path_eval avg_eval
        Let_def)
  show ?thesis
    using run tmpfile_removed by simp
qed

subsection \<open>\<open>smudge_cdc\<close>\<close>

lemma read_payload_framed':
  assumes "packets_ok ps" "stdin w = framed ps @ rest"
  shows "read_payload w = (ps, None, w\<lparr>stdin := rest\<rparr>)"
  using assms by (intro read_payload_framed) (simp_all add: packets_ok_def list_all_iff framed_def)

text \<open>
  Claim C6. For a request routed to \<open>smudge_cdc\<close>: when the hash of the \<open>blob\<close> header
  differs from the stem of the pathname (or there is no such header), the session fails.
  When they are equal, the handler reads the payload packets and drops them, and
  writes \<open>status=success\<close>, a flush, the hash as one packet and two flushes.
\<close>

theorem smudge_cdc_response:
  "(blob \<noteq> Some (path_stem pathname) \<longrightarrow> (\<exists>e. fst (smudge_cdc pathname blob w) = Inl e))
   \<and> (blob = Some (path_stem pathname) \<and> read_payload w = (pkgs, None, w1)
      \<longrightarrow> smudge_cdc pathname blob w =
            (Inr (), w1\<lparr>stdout := stdout w1 @ response [encode (path_stem pathname)]\<rparr>))
   \<and> (blob = Some (path_stem pathname) \<and> packets_ok ps \<and> stdin w = framed ps @ rest
      \<longrightarrow> smudge_cdc pathname blob w =
            (Inr (), w\<lparr>stdin := rest,
                        stdout := stdout w @ response [encode (path_stem pathname)]\<rparr>))"
proof (intro conjI impI)
  assume "blob \<noteq> Some (path_stem pathname)"
  then show "\<exists>e. fst (smudge_cdc pathname blob w) = Inl e"
    by (auto simp add: smudge_cdc_def Let_def split: prod.splits option.splits)
next
  assume "blob = Some (path_stem pathname) \<and> read_payload w = (pkgs, None, w1)"
  then show "smudge_cdc pathname blob w =
      (Inr (), w1\<lparr>stdout := stdout w1 @ response [encode (path_stem pathname)]\<rparr>)"
    by (simp add: smudge_cdc_def Let_def response_def framed_def write_pkt_line_str_def
        write_pkt_line_def write_bytes_def flush_pkt_def)
next
  assume a: "blob = Some (path_stem pathname) \<and> packets_ok ps \<and> stdin w = framed ps @ rest"
  then have "read_payload w = (ps, None, w\<lparr>stdin := rest\<rparr>)"
    by (intro read_payload_framed') simp_all
  with a show "smudge_cdc pathname blob w =
      (Inr (), w\<lparr>stdin := rest, stdout := stdout w @ response [encode (path_stem pathname)]\<rparr>)"
    by (simp add: smudge_cdc_def Let_def response_def framed_def write_pkt_line_str_def
        write_pkt_line_def write_bytes_def flush_pkt_def)
qed

theorem smudge_cdc_response_witness:
  "fst (smudge_cdc (Path (lit ''.cdc/ab/cd/abcd.cdc'')) (Some (lit ''abce''))
      \<lparr>stdin = ''0006xy0000'', stdin_fails = False, stdout = [], files = Map.empty,
        ondisk_cache = None\<rparr>) = Inl AssertionError
   \<and> smudge_cdc (Path (lit ''.cdc/ab/cd/abcd.cdc'')) (Some (lit ''abcd''))
      \<lparr>stdin = ''0006xy0000'', stdin_fails = False, stdout = [], files = Map.empty,
        ondisk_cache = None\<rparr>
     = (Inr (), \<lparr>stdin = [], stdin_fails = False,
          stdout = ''0013status=success'' @ [CHR 0x0A] @ ''0000'' @ ''0008abcd'' @ ''0000'' @ ''0000'',
          files = Map.empty, ondisk_cache = None\<rparr>)"
proof -
  let ?w = "\<lparr>stdin = ''0006xy0000'', stdin_fails = False, stdout = [], files = Map.empty,
        ondisk_cache = None\<rparr>"
  let ?p = "Path (lit ''.cdc/ab/cd/abcd.cdc'')"
  have stem: "path_stem ?p = lit ''abcd''" by (simp add: path_eval lit_def)
  have fr: "stdin ?w = framed [''xy''] @ []" "packets_ok [''xy'']"
    by (simp_all add: framed_def pkt_line_def packets_ok_def hexchar_def format_04x_digits)
  have r: "response [encode (lit ''abcd'')] =
      ''0013status=success'' @ [CHR 0x0A] @ ''0000'' @ ''0008abcd'' @ ''0000'' @ ''0000''"
    by (simp add: packet_eval)
  have "\<exists>e. fst (smudge_cdc ?p (Some (lit ''abce'')) ?w) = Inl e"
    using smudge_cdc_response [of "Some (lit ''abce'')" ?p ?w] stem by (simp add: lit_def)
  moreover have "fst (smudge_cdc ?p (Some (lit ''abce'')) ?w) \<noteq> Inl e \<or> e = AssertionError" for e
    using stem by (auto simp add: smudge_cdc_def read_payload.simps packet_eval Let_def)
  ultimately have 1: "fst (smudge_cdc ?p (Some (lit ''abce'')) ?w) = Inl AssertionError" by metis
  have 2: "smudge_cdc ?p (Some (lit ''abcd'')) ?w =
      (Inr (), ?w\<lparr>stdin := [], stdout := stdout ?w @ response [encode (path_stem ?p)]\<rparr>)"
    using smudge_cdc_response [of "Some (lit ''abcd'')" ?p ?w "[]" ?w "[''xy'']" "[]"] stem fr
    by simp
  from 1 2 show ?thesis by (simp add: stem r)
qed

subsection \<open>Hashes, their lines and their paths\<close>

lemma hex_codepoint_cases:
  "hex_codepoint u \<Longrightarrow>
   u = ''0'' \<or> u = ''1'' \<or> u = ''2'' \<or> u = ''3'' \<or> u = ''4'' \<or> u = ''5'' \<or> u = ''6'' \<or> u = ''7'' \<or>
   u = ''8'' \<or> u = ''9'' \<or> u = ''a'' \<or> u = ''b'' \<or> u = ''c'' \<or> u = ''d'' \<or> u = ''e'' \<or> u = ''f''"
  by (simp add: hex_codepoint_def lit_def)

lemma hex_codepoint_props:
  assumes "hex_codepoint u"
  shows "u \<noteq> [CHR ''/'']" and "u \<noteq> [CHR ''.'']" and "\<not> is_whitespace u"
    and "\<not> is_linebreak u" and "wf_codepoint u" and "u \<noteq> []" and "length u = 1"
    and "\<not> is_cont (hd u)" and "u \<noteq> NL" and "u \<noteq> [CHR 0x0D]"
  using hex_codepoint_cases [OF assms]
  by (auto simp add: is_whitespace_def is_linebreak_def wf_codepoint_def is_cont_def byte_def NL_def)

lemma is_hash_plain: "is_hash h \<Longrightarrow> plain h"
  by (auto simp add: is_hash_def plain_def list_all_iff dest: hex_codepoint_props)

lemma plain_take: "plain s \<Longrightarrow> plain (take n s)"
  by (auto simp add: plain_def dest: in_set_takeD)

lemma plain_drop: "plain s \<Longrightarrow> plain (drop n s)"
  by (auto simp add: plain_def dest: in_set_dropD)

lemma split_on_absent: "sep \<notin> set s \<Longrightarrow> split_on sep s = [s]"
  by (induction s) auto

lemma Path_plain:
  assumes "plain s" "s \<noteq> []"
  shows "Path s = \<lparr>path_root = [], path_parts = [s]\<rparr>"
proof -
  have a: "[CHR ''/''] \<notin> set s" using assms(1) by (auto simp add: plain_def)
  have b: "s \<noteq> lit ''.''"
  proof
    assume "s = lit ''.''"
    then have "[CHR ''.''] \<in> set s" by (simp add: lit_def)
    with assms(1) show False unfolding plain_def by blast
  qed
  obtain u r where s: "s = u # r" using assms(2) by (cases s) auto
  with assms(1) have u: "u \<noteq> [CHR ''/'']" by (auto simp add: plain_def)
  have r1: "take 1 s \<noteq> lit ''/''" using u unfolding s lit_def by simp
  have r2: "take 2 s \<noteq> lit ''//''" using u unfolding s lit_def by (cases r) simp_all
  have f: "filter (\<lambda>x. x \<noteq> [] \<and> x \<noteq> lit ''.'') [s] = [s]" using b assms(2) by simp
  show ?thesis
    unfolding Path_def split_on_absent [OF a] f using r1 r2 by simp
qed

lemma truediv_plain:
  assumes "plain s" "s \<noteq> []"
  shows "truediv p s = p\<lparr>path_parts := path_parts p @ [s]\<rparr>"
  by (simp add: truediv_def Path_plain [OF assms])

lemma hash_dir_hash:
  assumes "is_hash h"
  shows "hash_dir cdcdir h = \<lparr>path_root = [], path_parts = [lit ''.cdc'', take 2 h, take 2 (drop 2 h), h]\<rparr>"
proof -
  have p: "plain h" using assms by (rule is_hash_plain)
  have l: "4 \<le> length h" using assms by (simp add: is_hash_def)
  then have n: "take 2 h \<noteq> []" "take 2 (drop 2 h) \<noteq> []" "h \<noteq> []" by auto
  have c: "cdcdir = \<lparr>path_root = [], path_parts = [lit ''.cdc'']\<rparr>"
    by (simp add: cdcdir_def Path_def lit_def)
  have 1: "truediv cdcdir (take 2 h) = \<lparr>path_root = [], path_parts = [lit ''.cdc'', take 2 h]\<rparr>"
    unfolding truediv_plain [OF plain_take [OF p] n(1)] c by simp
  have 2: "truediv (truediv cdcdir (take 2 h)) (take 2 (drop 2 h))
      = \<lparr>path_root = [], path_parts = [lit ''.cdc'', take 2 h, take 2 (drop 2 h)]\<rparr>"
    unfolding truediv_plain [OF plain_take [OF plain_drop [OF p]] n(2)] 1 by simp
  show ?thesis
    unfolding hash_dir_def Let_def 2 truediv_plain [OF p n(3)] by simp
qed

lemma rfind_dot_plain: "plain s \<Longrightarrow> rfind_dot s = None"
  by (auto simp add: rfind_dot_def plain_def)

lemma with_suffix_hash:
  assumes "is_hash h"
  shows "with_suffix (hash_dir cdcdir h) (lit ''.cdc'') = Inr (manifest_path h)"
proof -
  have p: "plain h" using assms by (rule is_hash_plain)
  have n: "h \<noteq> []" using assms by (auto simp add: is_hash_def)
  show ?thesis
    using n by (simp add: hash_dir_hash [OF assms] with_suffix_def path_name_def path_suffix_def
        rfind_dot_plain [OF p] manifest_path_def Let_def)
qed

lemma path_name_manifest: "path_name (manifest_path h) = h @ lit ''.cdc''"
  by (simp add: path_name_def manifest_path_def)

lemma rfind_dot_line:
  assumes "plain h"
  shows "rfind_dot (h @ lit ''.cdc'') = Some (length h)"
proof -
  have "takeWhile (\<lambda>u. u \<noteq> [CHR ''.'']) (rev (h @ lit ''.cdc'')) = lit ''cdc''"
    by (simp add: lit_def)
  then show ?thesis by (simp add: rfind_dot_def lit_def)
qed

lemma stem_of_name:
  assumes "plain h" "h \<noteq> []" "path_name p = h @ lit ''.cdc''"
  shows "path_stem p = h"
proof -
  have l: "length (h @ lit ''.cdc'') = length h + 4" by (simp add: lit_def)
  have "0 < length h \<and> length h < length (h @ lit ''.cdc'') - 1"
    using assms(2) unfolding l by simp
  then show ?thesis
    unfolding path_stem_def assms(3) Let_def rfind_dot_line [OF assms(1)] by simp
qed

lemma path_stem_manifest: "is_hash h \<Longrightarrow> path_stem (manifest_path h) = h"
  by (rule stem_of_name [OF is_hash_plain]) (auto simp add: is_hash_def path_name_manifest)

lemma manifest_path_inj: "manifest_path h = manifest_path h' \<Longrightarrow> h = h'"
  by (simp add: manifest_path_def)

lemma manifest_path_not_tmpfile: "manifest_path h \<noteq> tmpfile"
  by (simp add: manifest_path_def tmpfile_def Path_def lit_def)

subsection \<open>The chunk-manifest files written by the clean handlers\<close>

lemma manifest_of_mono: "manifest_of E cs p v \<Longrightarrow> set cs \<subseteq> set ds \<Longrightarrow> manifest_of E ds p v"
  unfolding manifest_of_def by blast

lemma store_chunks_written:
  assumes "hashes_ok E"
  shows "files (snd (store_chunks E buffer cdcs new w)) p \<noteq> files w p
    \<Longrightarrow> manifest_of E (chunk_data buffer cdcs) p (files (snd (store_chunks E buffer cdcs new w)) p)"
proof (induction cdcs arbitrary: new w)
  case Nil
  then show ?case by simp
next
  case (Cons c cdcs)
  obtain offset len where c: "c = (offset, len)" by (cases c)
  let ?data = "take len (drop offset buffer)"
  show ?case
  proof (cases "git_hash_blob E ?data")
    case (Inl e)
    with Cons.prems c show ?thesis by simp
  next
    case (Inr h)
    then have h: "is_hash h" using assms unfolding hashes_ok_def by blast
    let ?w1 = "w\<lparr>files := (files w)(manifest_path h \<mapsto> encode h)\<rparr>"
    let ?w2 = "write_pkt_line_str (path_name (manifest_path h) @ [NL]) ?w1"
    let ?new = "new \<or> files w (manifest_path h) = None"
    have step: "store_chunks E buffer (c # cdcs) new w = store_chunks E buffer cdcs ?new ?w2"
      by (simp add: c Inr with_suffix_hash [OF h] Let_def)
    have f2: "files ?w2 = (files w)(manifest_path h \<mapsto> encode h)"
      by (simp add: write_pkt_line_str_def write_pkt_line_def write_bytes_def)
    let ?r = "files (snd (store_chunks E buffer cdcs ?new ?w2)) p"
    have sub: "set (chunk_data buffer cdcs) \<subseteq> set (chunk_data buffer (c # cdcs))"
      by (auto simp add: chunk_data_def)
    show ?thesis
    proof (cases "?r = files ?w2 p")
      case True
      with Cons.prems step f2 have p: "p = manifest_path h" "?r = Some (encode h)"
        by (auto split: if_splits)
      have "manifest_of E (chunk_data buffer (c # cdcs)) p ?r"
        unfolding manifest_of_def
        using p Inr path_stem_manifest [OF h] by (auto simp add: chunk_data_def c)
      then show ?thesis by (simp only: step)
    next
      case False
      then have "manifest_of E (chunk_data buffer cdcs) p ?r" by (rule Cons.IH)
      then have "manifest_of E (chunk_data buffer (c # cdcs)) p ?r"
        using sub by (rule manifest_of_mono)
      then show ?thesis by (simp only: step)
    qed
  qed
qed

lemma store_chunks_keeps:
  assumes "hashes_ok E" "is_hash h" "files w (manifest_path h) = Some (encode h)"
  shows "files (snd (store_chunks E buffer cdcs new w)) (manifest_path h) = Some (encode h)"
  using assms(3)
proof (induction cdcs arbitrary: new w)
  case Nil
  then show ?case by simp
next
  case (Cons c cdcs)
  obtain offset len where c: "c = (offset, len)" by (cases c)
  let ?data = "take len (drop offset buffer)"
  show ?case
  proof (cases "git_hash_blob E ?data")
    case (Inl e)
    with Cons.prems c show ?thesis by simp
  next
    case (Inr h')
    then have h': "is_hash h'" using assms(1) unfolding hashes_ok_def by blast
    let ?w2 = "write_pkt_line_str (path_name (manifest_path h') @ [NL])
                 (w\<lparr>files := (files w)(manifest_path h' \<mapsto> encode h')\<rparr>)"
    have step: "store_chunks E buffer (c # cdcs) new w
        = store_chunks E buffer cdcs (new \<or> files w (manifest_path h') = None) ?w2"
      by (simp add: c Inr with_suffix_hash [OF h'] Let_def)
    have "files ?w2 (manifest_path h) = Some (encode h)"
      using Cons.prems manifest_path_inj [of h' h]
      by (auto simp add: write_pkt_line_str_def write_pkt_line_def write_bytes_def)
    then show ?thesis unfolding step by (rule Cons.IH)
  qed
qed

text \<open>The run of the loop when every chunk gets a hash: the response lines, and a file
  for every chunk.\<close>

lemma store_chunks_run:
  assumes "hashes_ok E"
    and "\<forall>d \<in> set (chunk_data buffer cdcs). git_hash_blob E d = Inr (H d)"
  shows "\<exists>new' f. store_chunks E buffer cdcs new w =
      (Inr new', w\<lparr>files := f,
          stdout := stdout w @
            concat (map (\<lambda>d. pkt_line (encode (H d @ lit ''.cdc'' @ [NL]))) (chunk_data buffer cdcs))\<rparr>)"
  using assms(2)
proof (induction cdcs arbitrary: new w)
  case Nil
  show ?case
    by (rule exI [of _ new], rule exI [of _ "files w"]) (simp add: chunk_data_def)
next
  case (Cons c cdcs)
  obtain offset len where c: "c = (offset, len)" by (cases c)
  let ?data = "take len (drop offset buffer)"
  have Inr: "git_hash_blob E ?data = Inr (H ?data)"
    using Cons.prems by (simp add: chunk_data_def c)
  then have h: "is_hash (H ?data)" using assms(1) unfolding hashes_ok_def by blast
  let ?h = "H ?data"
  let ?w2 = "write_pkt_line_str (path_name (manifest_path ?h) @ [NL])
               (w\<lparr>files := (files w)(manifest_path ?h \<mapsto> encode ?h)\<rparr>)"
  have step: "store_chunks E buffer (c # cdcs) new w
      = store_chunks E buffer cdcs (new \<or> files w (manifest_path ?h) = None) ?w2"
    by (simp add: c Inr with_suffix_hash [OF h] Let_def)
  have "\<forall>d \<in> set (chunk_data buffer cdcs). git_hash_blob E d = Inr (H d)"
    using Cons.prems by (simp add: chunk_data_def)
  from Cons.IH [OF this, of "new \<or> files w (manifest_path ?h) = None" ?w2]
  obtain new' f where r: "store_chunks E buffer cdcs (new \<or> files w (manifest_path ?h) = None) ?w2 =
      (Inr new', ?w2\<lparr>files := f,
          stdout := stdout ?w2 @
            concat (map (\<lambda>d. pkt_line (encode (H d @ lit ''.cdc'' @ [NL]))) (chunk_data buffer cdcs))\<rparr>)"
    by blast
  have "?w2\<lparr>files := f,
          stdout := stdout ?w2 @
            concat (map (\<lambda>d. pkt_line (encode (H d @ lit ''.cdc'' @ [NL]))) (chunk_data buffer cdcs))\<rparr>
     = w\<lparr>files := f,
          stdout := stdout w @
            concat (map (\<lambda>d. pkt_line (encode (H d @ lit ''.cdc'' @ [NL]))) (chunk_data buffer (c # cdcs)))\<rparr>"
    by (simp add: write_pkt_line_str_def write_pkt_line_def write_bytes_def path_name_manifest
        chunk_data_def c)
  with r step show ?case by metis
qed

lemma store_chunks_all_written:
  assumes "hashes_ok E" "d \<in> set (chunk_data buffer cdcs)" "git_hash_blob E d = Inr h"
    and "fst (store_chunks E buffer cdcs new w) = Inr n"
  shows "files (snd (store_chunks E buffer cdcs new w)) (manifest_path h) = Some (encode h)"
  using assms(2,4)
proof (induction cdcs arbitrary: new w)
  case Nil
  then show ?case by (simp add: chunk_data_def)
next
  case (Cons c cdcs)
  obtain offset len where c: "c = (offset, len)" by (cases c)
  let ?data = "take len (drop offset buffer)"
  from Cons.prems(2) obtain h' where Inr: "git_hash_blob E ?data = Inr h'"
    by (cases "git_hash_blob E ?data") (simp_all add: c)
  then have h': "is_hash h'" using assms(1) unfolding hashes_ok_def by blast
  have h: "is_hash h" using assms(1,3) unfolding hashes_ok_def by blast
  let ?w2 = "write_pkt_line_str (path_name (manifest_path h') @ [NL])
               (w\<lparr>files := (files w)(manifest_path h' \<mapsto> encode h')\<rparr>)"
  let ?new = "new \<or> files w (manifest_path h') = None"
  have step: "store_chunks E buffer (c # cdcs) new w = store_chunks E buffer cdcs ?new ?w2"
    by (simp add: c Inr with_suffix_hash [OF h'] Let_def)
  show ?case
  proof (cases "d = ?data")
    case True
    with Inr assms(3) have "h' = h" by simp
    then have "files ?w2 (manifest_path h) = Some (encode h)"
      by (simp add: write_pkt_line_str_def write_pkt_line_def write_bytes_def)
    then show ?thesis unfolding step by (rule store_chunks_keeps [OF assms(1) h])
  next
    case False
    with Cons.prems(1) have "d \<in> set (chunk_data buffer cdcs)" by (simp add: chunk_data_def c)
    moreover have "fst (store_chunks E buffer cdcs ?new ?w2) = Inr n"
      using Cons.prems(2) by (simp only: step)
    ultimately show ?thesis unfolding step by (rule Cons.IH)
  qed
qed

lemma read_files: "read n (w\<lparr>files := f\<rparr>) = (fst (read n w), (snd (read n w))\<lparr>files := f\<rparr>)"
  by (simp add: read_def)

lemma read_pkt_line_files:
  "read_pkt_line (w\<lparr>files := f\<rparr>) = (fst (read_pkt_line w), (snd (read_pkt_line w))\<lparr>files := f\<rparr>)"
  by (simp add: read_pkt_line_def read_files split: prod.splits sum.splits)

lemma read_payload_files:
  "read_payload (w\<lparr>files := f\<rparr>) =
     (case read_payload w of (pkgs, err, w1) \<Rightarrow> (pkgs, err, w1\<lparr>files := f\<rparr>))"
proof (induction w rule: read_payload.induct)
  case (1 w)
  obtain r w1 where r: "read_pkt_line w = (r, w1)" by (cases "read_pkt_line w")
  then have r': "read_pkt_line (w\<lparr>files := f\<rparr>) = (r, w1\<lparr>files := f\<rparr>)"
    by (simp add: read_pkt_line_files)
  show ?case
  proof (cases r)
    case (Inl e)
    with r r' show ?thesis by (simp add: read_payload.simps [of w] read_payload.simps [of "w\<lparr>files := f\<rparr>"])
  next
    case (Inr pkg)
    show ?thesis
    proof (cases "pkg = []")
      case True
      with Inr r r' show ?thesis
        by (simp add: read_payload.simps [of w] read_payload.simps [of "w\<lparr>files := f\<rparr>"])
    next
      case False
      from 1 [OF r [symmetric] Inr False]
      have "read_payload (w1\<lparr>files := f\<rparr>) =
          (case read_payload w1 of (pkgs, err, w2) \<Rightarrow> (pkgs, err, w2\<lparr>files := f\<rparr>))" .
      with Inr r r' False show ?thesis
        by (simp add: read_payload.simps [of w] read_payload.simps [of "w\<lparr>files := f\<rparr>"]
            split: prod.splits)
    qed
  qed
qed

lemma read_keeps:
  "read n w = (r, w1) \<Longrightarrow> files w1 = files w \<and> stdout w1 = stdout w"
  by (auto simp add: read_def split: if_splits)

lemma read_pkt_line_keeps:
  assumes "read_pkt_line w = (r, w1)"
  shows "files w1 = files w \<and> stdout w1 = stdout w"
proof -
  obtain r0 w0 where r0: "read 4 w = (r0, w0)" by (cases "read 4 w")
  then have k0: "files w0 = files w \<and> stdout w0 = stdout w" by (rule read_keeps)
  show ?thesis
  proof (cases "w1 = w0")
    case True
    with k0 show ?thesis by simp
  next
    case False
    with assms r0 obtain len where "read len w0 = (r, w1)"
      by (auto simp add: read_pkt_line_def split: sum.splits if_splits)
    then have "files w1 = files w0 \<and> stdout w1 = stdout w0" by (rule read_keeps)
    with k0 show ?thesis by simp
  qed
qed

lemma read_payload_keeps:
  "read_payload w = (pkgs, err, w2) \<Longrightarrow> files w2 = files w \<and> stdout w2 = stdout w"
proof (induction w arbitrary: pkgs err w2 rule: read_payload.induct)
  case (1 w)
  obtain r w1 where r: "read_pkt_line w = (r, w1)" by (cases "read_pkt_line w")
  then have k: "files w1 = files w \<and> stdout w1 = stdout w" by (rule read_pkt_line_keeps)
  show ?case
  proof (cases r)
    case (Inl e)
    with r k "1.prems" show ?thesis by (simp add: read_payload.simps [of w])
  next
    case (Inr pkg)
    show ?thesis
    proof (cases "pkg = []")
      case True
      with Inr r k "1.prems" show ?thesis by (simp add: read_payload.simps [of w])
    next
      case False
      obtain pkgs' err' w' where p: "read_payload w1 = (pkgs', err', w')"
        by (cases "read_payload w1") auto
      from "1.IH" [OF r [symmetric] Inr False p]
      have "files w' = files w1 \<and> stdout w' = stdout w1" .
      moreover have "w2 = w'"
        using "1.prems" Inr r False p by (simp add: read_payload.simps [of w])
      ultimately show ?thesis using k by simp
    qed
  qed
qed

lemma output_keeps_files:
  "files (write_bytes b w) = files w" "files (write_pkt_line d w) = files w"
  "files (write_pkt_line_str s w) = files w" "files (flush_pkt w) = files w"
  by (simp_all add: write_bytes_def write_pkt_line_def write_pkt_line_str_def flush_pkt_def)

lemma chunk_and_store_written:
  assumes "hashes_ok E"
    and "files (snd (chunk_and_store E buffer w)) p \<noteq> files w p"
  shows "manifest_of E (payload_chunks E buffer) p (files (snd (chunk_and_store E buffer w)) p)"
proof (cases "clean_avg_size (length buffer)")
  case (Inl e)
  with assms(2) show ?thesis by (simp add: chunk_and_store_def)
next
  case (Inr avg)
  obtain cdcs err where f: "fastcdc E buffer avg = (cdcs, err)" by (cases "fastcdc E buffer avg")
  let ?w1 = "flush_pkt (write_pkt_line_str status_success w)"
  let ?s = "store_chunks E buffer cdcs False ?w1"
  have fs: "files (snd (chunk_and_store E buffer w)) = files (snd ?s)"
    by (simp add: chunk_and_store_def Inr f Let_def output_keeps_files
        split: prod.splits sum.splits option.splits)
  have "files ?w1 = files w" by (simp add: output_keeps_files)
  with assms(2) fs have "files (snd ?s) p \<noteq> files ?w1 p" by simp
  then have "manifest_of E (chunk_data buffer cdcs) p (files (snd ?s) p)"
    by (rule store_chunks_written [OF assms(1)])
  then show ?thesis by (simp add: payload_chunks_def Inr f fs)
qed

lemma chunk_and_store_all_written:
  assumes "hashes_ok E" "fst (chunk_and_store E buffer w) = Inr n"
    and "d \<in> set (payload_chunks E buffer)" "git_hash_blob E d = Inr h"
  shows "files (snd (chunk_and_store E buffer w)) (manifest_path h) = Some (encode h)"
proof (cases "clean_avg_size (length buffer)")
  case (Inl e)
  with assms(2) show ?thesis by (simp add: chunk_and_store_def)
next
  case (Inr avg)
  obtain cdcs err where f: "fastcdc E buffer avg = (cdcs, err)" by (cases "fastcdc E buffer avg")
  let ?w1 = "flush_pkt (write_pkt_line_str status_success w)"
  let ?s = "store_chunks E buffer cdcs False ?w1"
  have fs: "files (snd (chunk_and_store E buffer w)) = files (snd ?s)"
    by (simp add: chunk_and_store_def Inr f Let_def output_keeps_files
        split: prod.splits sum.splits option.splits)
  from assms(2) obtain n' where ok: "fst ?s = Inr n'"
    by (auto simp add: chunk_and_store_def Inr f Let_def split: prod.splits sum.splits option.splits)
  have d: "d \<in> set (chunk_data buffer cdcs)" using assms(3) by (simp add: payload_chunks_def Inr f)
  show ?thesis
    unfolding fs by (rule store_chunks_all_written [OF assms(1) d assms(4) ok])
qed

lemma clean_files_written:
  assumes "hashes_ok E" "files (snd (clean E pathname w)) p \<noteq> files w p"
  shows "manifest_of E (payload_chunks E (concat (fst (read_payload w)))) p
           (files (snd (clean E pathname w)) p)"
proof -
  obtain pkgs err w1 where rp: "read_payload w = (pkgs, err, w1)"
    by (cases "read_payload w") auto
  then have k: "files w1 = files w" using read_payload_keeps by blast
  show ?thesis
  proof (cases err)
    case (Some e)
    with assms(2) rp k show ?thesis by (simp add: clean_def)
  next
    case None
    then have c: "clean E pathname w = chunk_and_store E (concat pkgs) w1"
      by (simp add: clean_def rp)
    from assms(2) have "files (snd (chunk_and_store E (concat pkgs) w1)) p \<noteq> files w1 p"
      by (simp add: c k)
    then have "manifest_of E (payload_chunks E (concat pkgs)) p
        (files (snd (chunk_and_store E (concat pkgs) w1)) p)"
      by (rule chunk_and_store_written [OF assms(1)])
    then show ?thesis by (simp add: c rp)
  qed
qed

lemma clean_all_written:
  assumes "hashes_ok E" "fst (clean E pathname w) = Inr n"
    and "d \<in> set (payload_chunks E (concat (fst (read_payload w))))" "git_hash_blob E d = Inr h"
  shows "files (snd (clean E pathname w)) (manifest_path h) = Some (encode h)"
proof -
  obtain pkgs err w1 where rp: "read_payload w = (pkgs, err, w1)"
    by (cases "read_payload w") auto
  with assms(2) have None: "err = None" by (cases err) (simp_all add: clean_def)
  then have c: "clean E pathname w = chunk_and_store E (concat pkgs) w1"
    by (simp add: clean_def rp)
  have "files (snd (chunk_and_store E (concat pkgs) w1)) (manifest_path h) = Some (encode h)"
    using assms(2,3) by (intro chunk_and_store_all_written [OF assms(1) _ _ assms(4)])
      (simp_all add: c rp)
  then show ?thesis by (simp add: c)
qed

text \<open>The on-disk handler: what the \<open>try\<close> body leaves, step by step.\<close>

lemma clean_ondisk_try_steps:
  assumes "read_payload w = (pkgs, err, w1)"
  shows "clean_ondisk_try E pathname w =
     (case err of
        Some e \<Rightarrow> (Inl e, w1\<lparr>files := (files w)(tmpfile \<mapsto> concat pkgs)\<rparr>)
      | None \<Rightarrow> chunk_and_store E (concat pkgs) (w1\<lparr>files := (files w)(tmpfile \<mapsto> concat pkgs)\<rparr>))"
  by (simp add: clean_ondisk_try_def Let_def read_payload_files assms split: option.splits)

lemma clean_ondisk_files:
  assumes "p \<noteq> tmpfile"
  shows "files (snd (clean_ondisk E pathname w)) p = files (snd (clean_ondisk_try E pathname w)) p"
  using assms by (simp add: clean_ondisk_def split: prod.splits)

lemma clean_ondisk_files_written:
  assumes "hashes_ok E" "p \<noteq> tmpfile" "files (snd (clean_ondisk E pathname w)) p \<noteq> files w p"
  shows "manifest_of E (payload_chunks E (concat (fst (read_payload w)))) p
           (files (snd (clean_ondisk E pathname w)) p)"
proof -
  obtain pkgs err w1 where rp: "read_payload w = (pkgs, err, w1)"
    by (cases "read_payload w") auto
  let ?w2 = "w1\<lparr>files := (files w)(tmpfile \<mapsto> concat pkgs)\<rparr>"
  have k: "files ?w2 p = files w p" using assms(2) by simp
  note f = clean_ondisk_files [OF assms(2)]
  show ?thesis
  proof (cases err)
    case (Some e)
    with assms(3) k show ?thesis by (simp add: f clean_ondisk_try_steps [OF rp])
  next
    case None
    then have c: "clean_ondisk_try E pathname w = chunk_and_store E (concat pkgs) ?w2"
      by (simp add: clean_ondisk_try_steps [OF rp])
    from assms(3) have "files (snd (chunk_and_store E (concat pkgs) ?w2)) p \<noteq> files ?w2 p"
      unfolding f c k .
    then have "manifest_of E (payload_chunks E (concat pkgs)) p
        (files (snd (chunk_and_store E (concat pkgs) ?w2)) p)"
      by (rule chunk_and_store_written [OF assms(1)])
    then show ?thesis by (simp add: f c rp)
  qed
qed

lemma clean_ondisk_all_written:
  assumes "hashes_ok E" "fst (clean_ondisk E pathname w) = Inr n"
    and "d \<in> set (payload_chunks E (concat (fst (read_payload w))))" "git_hash_blob E d = Inr h"
  shows "files (snd (clean_ondisk E pathname w)) (manifest_path h) = Some (encode h)"
proof -
  obtain pkgs err w1 where rp: "read_payload w = (pkgs, err, w1)"
    by (cases "read_payload w") auto
  let ?w2 = "w1\<lparr>files := (files w)(tmpfile \<mapsto> concat pkgs)\<rparr>"
  from assms(2) have t: "fst (clean_ondisk_try E pathname w) = Inr n"
    by (auto simp add: clean_ondisk_def split: prod.splits if_splits)
  then have None: "err = None" by (cases err) (simp_all add: clean_ondisk_try_steps [OF rp])
  then have c: "clean_ondisk_try E pathname w = chunk_and_store E (concat pkgs) ?w2"
    by (simp add: clean_ondisk_try_steps [OF rp])
  have "files (snd (chunk_and_store E (concat pkgs) ?w2)) (manifest_path h) = Some (encode h)"
    using t assms(3) by (intro chunk_and_store_all_written [OF assms(1) _ _ assms(4)])
      (simp_all add: c rp)
  then show ?thesis
    by (simp add: clean_ondisk_files [OF manifest_path_not_tmpfile] c)
qed

text \<open>
  Claim C8. Every chunk-manifest file that the clean handlers write, buffered and on
  disk, is at the path \<open>.cdc/<hash[0:2]>/<hash[2:4]>/<hash>.cdc\<close>, where \<open>hash\<close> is what the
  object store returned for the data of the chunk, and its contents are that hash: the
  stem of the file name, the contents and the hash are equal. Here a hash is what git
  prints: at least four lower-case hexadecimal digits. The first two parts say that
  every file that a handler has changed (the temporary file apart) is such a file,
  also when the handler fails on the way; the last two that after a run that
  completes every chunk has its file.
\<close>

theorem chunk_manifest_consistency:
  "hashes_ok E \<longrightarrow>
     (files (snd (clean E pathname w)) p \<noteq> files w p
        \<longrightarrow> manifest_of E (payload_chunks E (concat (fst (read_payload w)))) p
              (files (snd (clean E pathname w)) p))
     \<and> (p \<noteq> tmpfile \<and> files (snd (clean_ondisk E pathname w)) p \<noteq> files w p
        \<longrightarrow> manifest_of E (payload_chunks E (concat (fst (read_payload w)))) p
              (files (snd (clean_ondisk E pathname w)) p))
     \<and> (fst (clean E pathname w) = Inr n
          \<and> d \<in> set (payload_chunks E (concat (fst (read_payload w))))
          \<and> git_hash_blob E d = Inr h
        \<longrightarrow> files (snd (clean E pathname w)) (manifest_path h) = Some (encode h)
            \<and> path_stem (manifest_path h) = h)
     \<and> (fst (clean_ondisk E pathname w) = Inr n
          \<and> d \<in> set (payload_chunks E (concat (fst (read_payload w))))
          \<and> git_hash_blob E d = Inr h
        \<longrightarrow> files (snd (clean_ondisk E pathname w)) (manifest_path h) = Some (encode h)
            \<and> path_stem (manifest_path h) = h)"
proof (intro impI conjI)
  assume ok: "hashes_ok E"
  {
    assume "files (snd (clean E pathname w)) p \<noteq> files w p"
    then show "manifest_of E (payload_chunks E (concat (fst (read_payload w)))) p
              (files (snd (clean E pathname w)) p)"
      by (rule clean_files_written [OF ok])
  }
  {
    assume "p \<noteq> tmpfile \<and> files (snd (clean_ondisk E pathname w)) p \<noteq> files w p"
    then show "manifest_of E (payload_chunks E (concat (fst (read_payload w)))) p
              (files (snd (clean_ondisk E pathname w)) p)"
      using clean_ondisk_files_written [OF ok] by blast
  }
  {
    assume a: "fst (clean E pathname w) = Inr n
          \<and> d \<in> set (payload_chunks E (concat (fst (read_payload w))))
          \<and> git_hash_blob E d = Inr h"
    then show "files (snd (clean E pathname w)) (manifest_path h) = Some (encode h)"
      using clean_all_written [OF ok] by blast
    from a ok show "path_stem (manifest_path h) = h"
      unfolding hashes_ok_def using path_stem_manifest by blast
  }
  {
    assume a: "fst (clean_ondisk E pathname w) = Inr n
          \<and> d \<in> set (payload_chunks E (concat (fst (read_payload w))))
          \<and> git_hash_blob E d = Inr h"
    then show "files (snd (clean_ondisk E pathname w)) (manifest_path h) = Some (encode h)"
      using clean_ondisk_all_written [OF ok] by blast
    from a ok show "path_stem (manifest_path h) = h"
      unfolding hashes_ok_def using path_stem_manifest by blast
  }
qed


text \<open>A store that answers every input with the hash \<open>00ab\<close>, a chunker that yields one
  span, and the payload \<open>ab\<close> in one packet.\<close>

theorem chunk_manifest_consistency_witness:
  "hashes_ok \<lparr>hash_object = (\<lambda>data. Inr ''00ab''), cat_file = (\<lambda>hash. Inl CalledProcessError),
        fastcdc = (\<lambda>data avg. ([(0, length data)], None)), config_ondisk = ''true''\<rparr>
   \<and> manifest_of \<lparr>hash_object = (\<lambda>data. Inr ''00ab''), cat_file = (\<lambda>hash. Inl CalledProcessError),
        fastcdc = (\<lambda>data avg. ([(0, length data)], None)), config_ondisk = ''true''\<rparr>
       [''ab''] (manifest_path (lit ''00ab'')) (Some ''00ab'')
   \<and> files (snd (clean
        \<lparr>hash_object = (\<lambda>data. Inr ''00ab''), cat_file = (\<lambda>hash. Inl CalledProcessError),
          fastcdc = (\<lambda>data avg. ([(0, length data)], None)), config_ondisk = ''true''\<rparr>
        (Path (lit ''big.bin''))
        \<lparr>stdin = ''0006ab0000'', stdin_fails = False, stdout = [], files = Map.empty,
          ondisk_cache = None\<rparr>)) (manifest_path (lit ''00ab'')) = Some ''00ab''
   \<and> files (snd (clean_ondisk
        \<lparr>hash_object = (\<lambda>data. Inr ''00ab''), cat_file = (\<lambda>hash. Inl CalledProcessError),
          fastcdc = (\<lambda>data avg. ([(0, length data)], None)), config_ondisk = ''true''\<rparr>
        (Path (lit ''big.bin''))
        \<lparr>stdin = ''0006ab0000'', stdin_fails = False, stdout = [], files = Map.empty,
          ondisk_cache = None\<rparr>)) (manifest_path (lit ''00ab'')) = Some ''00ab''
   \<and> path_stem (manifest_path (lit ''00ab'')) = lit ''00ab''
   \<and> path_str (manifest_path (lit ''00ab'')) = lit ''.cdc/00/ab/00ab.cdc''"
proof -
  let ?E = "\<lparr>hash_object = (\<lambda>data. Inr ''00ab''), cat_file = (\<lambda>hash. Inl CalledProcessError),
        fastcdc = (\<lambda>data avg. ([(0, length data)], None)), config_ondisk = ''true''\<rparr>"
  let ?w = "\<lparr>stdin = ''0006ab0000'', stdin_fails = False, stdout = [], files = Map.empty,
          ondisk_cache = None\<rparr>"
  let ?p = "Path (lit ''big.bin'')"
  let ?h = "lit ''00ab''"
  have g: "git_hash_blob ?E data = Inr ?h" for data
    by (simp add: git_hash_blob_def strip_bytes_def packet_eval)
  have ih: "is_hash ?h" by (simp add: is_hash_def hex_codepoint_def lit_def)
  have ok: "hashes_ok ?E" unfolding hashes_ok_def using g ih by simp
  have rp: "read_payload ?w = ([''ab''], None, ?w\<lparr>stdin := []\<rparr>)"
    by (rule read_payload_framed) (simp_all add: pkt_line_def format_04x_digits hexchar_def)
  have pc: "payload_chunks ?E (concat (fst (read_payload ?w))) = [''ab'']"
    by (simp add: rp payload_chunks_def chunk_data_def avg_eval)
  have run: "fst (clean ?E ?p ?w) = Inr True" "fst (clean_ondisk ?E ?p ?w) = Inr True"
    by (simp_all add: clean_def clean_ondisk_def clean_ondisk_try_def read_payload.simps
        chunk_and_store_def git_hash_blob_def strip_bytes_def packet_eval path_eval avg_eval
        Let_def)
  have a: "files (snd (clean ?E ?p ?w)) (manifest_path ?h) = Some (encode ?h)
      \<and> path_stem (manifest_path ?h) = ?h"
    using chunk_manifest_consistency [of ?E ?p ?w "manifest_path ?h" True "''ab''" ?h] ok run pc g
    by simp
  have b: "files (snd (clean_ondisk ?E ?p ?w)) (manifest_path ?h) = Some (encode ?h)"
    using chunk_manifest_consistency [of ?E ?p ?w "manifest_path ?h" True "''ab''" ?h] ok run pc g
    by simp
  have "files ?w (manifest_path ?h) = None" by simp
  with a have "files (snd (clean ?E ?p ?w)) (manifest_path ?h) \<noteq> files ?w (manifest_path ?h)"
    by simp
  then have c: "manifest_of ?E [''ab''] (manifest_path ?h) (files (snd (clean ?E ?p ?w)) (manifest_path ?h))"
    using chunk_manifest_consistency [of ?E ?p ?w "manifest_path ?h" True "''ab''" ?h] ok pc
    by simp
  have e: "encode ?h = ''00ab''" by (simp add: encode_def lit_def)
  have s: "path_str (manifest_path ?h) = lit ''.cdc/00/ab/00ab.cdc''"
    by (simp add: path_str_def manifest_path_def lit_def)
  from ok a b c e s show ?thesis by simp
qed

subsection \<open>Unknown request headers\<close>

lemma read_pkt_line_str_packet:
  assumes "text_packet p" "stdin w = pkt_line p @ rest"
  shows "read_pkt_line_str w = (Inr (packet_line p), w\<lparr>stdin := rest\<rparr>)"
proof -
  from assms(1) have p: "p \<noteq> []" "length p + 4 < 65536"
    by (simp_all add: text_packet_def)
  from assms(1) obtain s where d: "decode p = Inr s"
    by (cases "decode p") (simp_all add: text_packet_def)
  have "read_pkt_line w = (Inr p, w\<lparr>stdin := rest\<rparr>)"
    using p assms(2) by (rule read_pkt_line_packet)
  with d show ?thesis by (simp add: read_pkt_line_str_def packet_line_def)
qed

lemma text_packet_line: "text_packet p \<Longrightarrow> packet_line p \<noteq> []"
  by (cases "decode p") (simp_all add: text_packet_def packet_line_def)

lemma read_headers_unknown:
  assumes "read_pkt_line_str w = (Inr line, w1)" "line \<noteq> []" "unknown_key line"
  shows "read_headers h w = read_headers h w1"
proof -
  obtain blob ref treeish where h: "h = (blob, ref, treeish)" by (cases h)
  obtain key val where k: "partition_at [CHR ''=''] line = (key, val)"
    by (cases "partition_at [CHR ''=''] line")
  with assms(3) have n: "key \<noteq> lit ''treeish''" "key \<noteq> lit ''ref''" "key \<noteq> lit ''blob''"
    by (simp_all add: unknown_key_def)
  show ?thesis
    unfolding h
    by (subst read_headers.simps) (simp add: assms(1,2) k n)
qed

lemma read_headers_step:
  assumes "read_pkt_line_str w = (Inr line, w1)" "line \<noteq> []"
    and "read_pkt_line_str w' = (Inr line, w1')"
    and "\<And>h'. read_headers h' w1 = read_headers h' w1'"
  shows "read_headers h w = read_headers h w'"
proof -
  obtain blob ref treeish where h: "h = (blob, ref, treeish)" by (cases h)
  obtain key val where k: "partition_at [CHR ''=''] line = (key, val)"
    by (cases "partition_at [CHR ''=''] line")
  have "read_headers (blob, ref, treeish) w
      = (if key = lit ''treeish'' then read_headers (blob, ref, Some val) w1
         else if key = lit ''ref'' then read_headers (blob, Some val, treeish) w1
         else if key = lit ''blob'' then read_headers (Some val, ref, treeish) w1
         else read_headers (blob, ref, treeish) w1)"
    by (subst read_headers.simps) (simp add: assms(1,2) k)
  moreover have "read_headers (blob, ref, treeish) w'
      = (if key = lit ''treeish'' then read_headers (blob, ref, Some val) w1'
         else if key = lit ''ref'' then read_headers (blob, Some val, treeish) w1'
         else if key = lit ''blob'' then read_headers (Some val, ref, treeish) w1'
         else read_headers (blob, ref, treeish) w1')"
    by (subst read_headers.simps) (simp add: assms(2,3) k)
  ultimately show ?thesis unfolding h by (simp only: assms(4))
qed

lemma read_headers_skip:
  assumes "list_all text_packet hs" "text_packet u" "unknown_key (packet_line u)"
  shows "read_headers h (w\<lparr>stdin := concat (map pkt_line hs) @ pkt_line u @ rest\<rparr>)
       = read_headers h (w\<lparr>stdin := concat (map pkt_line hs) @ rest\<rparr>)"
  using assms(1)
proof (induction hs arbitrary: h w)
  case Nil
  have "read_pkt_line_str (w\<lparr>stdin := pkt_line u @ rest\<rparr>)
      = (Inr (packet_line u), w\<lparr>stdin := pkt_line u @ rest\<rparr>\<lparr>stdin := rest\<rparr>)"
    by (rule read_pkt_line_str_packet [OF assms(2)]) simp
  then have "read_headers h (w\<lparr>stdin := pkt_line u @ rest\<rparr>)
      = read_headers h (w\<lparr>stdin := pkt_line u @ rest\<rparr>\<lparr>stdin := rest\<rparr>)"
    using assms(2,3) by (intro read_headers_unknown) (simp_all add: text_packet_line)
  then show ?case by simp
next
  case (Cons p hs)
  then have p: "text_packet p" and hs: "list_all text_packet hs" by simp_all
  let ?a = "w\<lparr>stdin := concat (map pkt_line (p # hs)) @ pkt_line u @ rest\<rparr>"
  let ?b = "w\<lparr>stdin := concat (map pkt_line (p # hs)) @ rest\<rparr>"
  have a: "read_pkt_line_str ?a
      = (Inr (packet_line p), ?a\<lparr>stdin := concat (map pkt_line hs) @ pkt_line u @ rest\<rparr>)"
    by (rule read_pkt_line_str_packet [OF p]) simp
  have b: "read_pkt_line_str ?b
      = (Inr (packet_line p), ?b\<lparr>stdin := concat (map pkt_line hs) @ rest\<rparr>)"
    by (rule read_pkt_line_str_packet [OF p]) simp
  have n: "packet_line p \<noteq> []" using p by (rule text_packet_line)
  have eq: "?a\<lparr>stdin := concat (map pkt_line hs) @ pkt_line u @ rest\<rparr>
      = w\<lparr>stdin := concat (map pkt_line hs) @ pkt_line u @ rest\<rparr>"
    "?b\<lparr>stdin := concat (map pkt_line hs) @ rest\<rparr>
      = w\<lparr>stdin := concat (map pkt_line hs) @ rest\<rparr>"
    by simp_all
  show ?case
    by (rule read_headers_step [OF a n b]) (simp only: eq Cons.IH [OF hs])
qed

text \<open>
  Claim C7. A header packet of a request whose key is none of \<open>treeish\<close>, \<open>ref\<close> and \<open>blob\<close>
  does not end the session: the request is read, routed and handled as if the packet
  were not there. The request here is well formed up to that packet: its command line
  has the key \<open>command\<close>, and the packet of the pathname (\<open>pn\<close>, with the key \<open>pathname\<close>) and
  the header packets before the unknown one (\<open>hs\<close>) are text packets. The first part is
  the header loop from any values of its variables, the second the whole request.
\<close>

theorem unknown_header_ignored:
  "list_all text_packet hs \<and> text_packet u \<and> unknown_key (packet_line u) \<longrightarrow>
     read_headers h (w\<lparr>stdin := concat (map pkt_line hs) @ pkt_line u @ rest\<rparr>)
       = read_headers h (w\<lparr>stdin := concat (map pkt_line hs) @ rest\<rparr>)
     \<and> (fst (partition_at [CHR ''=''] line) = lit ''command'' \<and> text_packet pn
          \<and> fst (partition_at [CHR ''=''] (packet_line pn)) = lit ''pathname''
        \<longrightarrow> process_request E line new
               (w\<lparr>stdin := pkt_line pn @ concat (map pkt_line hs) @ pkt_line u @ rest\<rparr>)
            = process_request E line new
               (w\<lparr>stdin := pkt_line pn @ concat (map pkt_line hs) @ rest\<rparr>))"
proof (intro impI conjI)
  assume a: "list_all text_packet hs \<and> text_packet u \<and> unknown_key (packet_line u)"
  then show skip: "read_headers h (w\<lparr>stdin := concat (map pkt_line hs) @ pkt_line u @ rest\<rparr>)
       = read_headers h (w\<lparr>stdin := concat (map pkt_line hs) @ rest\<rparr>)" for h w
    by (intro read_headers_skip) simp_all
  assume b: "fst (partition_at [CHR ''=''] line) = lit ''command'' \<and> text_packet pn
          \<and> fst (partition_at [CHR ''=''] (packet_line pn)) = lit ''pathname''"
  let ?a = "w\<lparr>stdin := pkt_line pn @ concat (map pkt_line hs) @ pkt_line u @ rest\<rparr>"
  let ?b = "w\<lparr>stdin := pkt_line pn @ concat (map pkt_line hs) @ rest\<rparr>"
  have ra: "read_pkt_line_str ?a
      = (Inr (packet_line pn), ?a\<lparr>stdin := concat (map pkt_line hs) @ pkt_line u @ rest\<rparr>)"
    using b by (intro read_pkt_line_str_packet) simp_all
  have rb: "read_pkt_line_str ?b
      = (Inr (packet_line pn), ?b\<lparr>stdin := concat (map pkt_line hs) @ rest\<rparr>)"
    using b by (intro read_pkt_line_str_packet) simp_all
  have eq: "?a\<lparr>stdin := concat (map pkt_line hs) @ pkt_line u @ rest\<rparr>
      = w\<lparr>stdin := concat (map pkt_line hs) @ pkt_line u @ rest\<rparr>"
    "?b\<lparr>stdin := concat (map pkt_line hs) @ rest\<rparr>
      = w\<lparr>stdin := concat (map pkt_line hs) @ rest\<rparr>"
    by simp_all
  obtain key command where k: "partition_at [CHR ''=''] line = (key, command)"
    by (cases "partition_at [CHR ''=''] line")
  obtain key2 pathname where k2: "partition_at [CHR ''=''] (packet_line pn) = (key2, pathname)"
    by (cases "partition_at [CHR ''=''] (packet_line pn)")
  from b k k2 have c: "key = lit ''command''" "key2 = lit ''pathname''" by simp_all
  show "process_request E line new ?a = process_request E line new ?b"
    by (simp add: process_request_def ra rb eq skip k k2 c)
qed


theorem unknown_header_ignored_witness:
  "process_request
      \<lparr>hash_object = (\<lambda>data. Inl CalledProcessError), cat_file = (\<lambda>hash. Inl CalledProcessError),
        fastcdc = (\<lambda>data avg. ([], None)), config_ondisk = []\<rparr>
      (lit ''command=smudge'') False
      \<lparr>stdin = pkt_line (''pathname=.cdc/ab/cd/abcd.cdc'' @ [CHR 0x0A])
          @ concat (map pkt_line [''blob=abcd'' @ [CHR 0x0A]])
          @ pkt_line (''can-delay=1'' @ [CHR 0x0A]) @ ''00000006xy0000'',
        stdin_fails = False, stdout = [], files = Map.empty, ondisk_cache = None\<rparr>
   = process_request
      \<lparr>hash_object = (\<lambda>data. Inl CalledProcessError), cat_file = (\<lambda>hash. Inl CalledProcessError),
        fastcdc = (\<lambda>data avg. ([], None)), config_ondisk = []\<rparr>
      (lit ''command=smudge'') False
      \<lparr>stdin = pkt_line (''pathname=.cdc/ab/cd/abcd.cdc'' @ [CHR 0x0A])
          @ concat (map pkt_line [''blob=abcd'' @ [CHR 0x0A]]) @ ''00000006xy0000'',
        stdin_fails = False, stdout = [], files = Map.empty, ondisk_cache = None\<rparr>
   \<and> process_request
      \<lparr>hash_object = (\<lambda>data. Inl CalledProcessError), cat_file = (\<lambda>hash. Inl CalledProcessError),
        fastcdc = (\<lambda>data avg. ([], None)), config_ondisk = []\<rparr>
      (lit ''command=smudge'') False
      \<lparr>stdin = pkt_line (''pathname=.cdc/ab/cd/abcd.cdc'' @ [CHR 0x0A])
          @ concat (map pkt_line [''blob=abcd'' @ [CHR 0x0A]]) @ ''00000006xy0000'',
        stdin_fails = False, stdout = [], files = Map.empty, ondisk_cache = None\<rparr>
   = (Inr False,
      \<lparr>stdin = [], stdin_fails = False,
        stdout = ''0013status=success'' @ [CHR 0x0A] @ ''0000'' @ ''0008abcd'' @ ''0000'' @ ''0000'',
        files = Map.empty, ondisk_cache = None\<rparr>)"
proof -
  let ?E = "\<lparr>hash_object = (\<lambda>data. Inl CalledProcessError),
        cat_file = (\<lambda>hash. Inl CalledProcessError),
        fastcdc = (\<lambda>data avg. ([], None)), config_ondisk = []\<rparr>"
  let ?pn = "''pathname=.cdc/ab/cd/abcd.cdc'' @ [CHR 0x0A]"
  let ?hs = "[''blob=abcd'' @ [CHR 0x0A]]"
  let ?u = "''can-delay=1'' @ [CHR 0x0A]"
  let ?w = "\<lparr>stdin = [], stdin_fails = False, stdout = [], files = Map.empty,
        ondisk_cache = None\<rparr>"
  have t: "text_packet ?pn" "list_all text_packet ?hs" "text_packet ?u"
    by (simp_all add: text_packet_def packet_eval)
  have k: "unknown_key (packet_line ?u)"
    "fst (partition_at [CHR ''=''] (lit ''command=smudge'')) = lit ''command''"
    "fst (partition_at [CHR ''=''] (packet_line ?pn)) = lit ''pathname''"
    by (simp_all add: unknown_key_def packet_line_def partition_at_def packet_eval)
  have 1: "process_request ?E (lit ''command=smudge'') False
        (?w\<lparr>stdin := pkt_line ?pn @ concat (map pkt_line ?hs) @ pkt_line ?u @ ''00000006xy0000''\<rparr>)
      = process_request ?E (lit ''command=smudge'') False
        (?w\<lparr>stdin := pkt_line ?pn @ concat (map pkt_line ?hs) @ ''00000006xy0000''\<rparr>)"
    using unknown_header_ignored [where hs = ?hs and u = ?u and w = ?w
        and rest = "''00000006xy0000''" and line = "lit ''command=smudge''" and pn = ?pn
        and E = ?E and new = False] t k
    by blast
  have 2: "process_request ?E (lit ''command=smudge'') False
        (?w\<lparr>stdin := pkt_line ?pn @ concat (map pkt_line ?hs) @ ''00000006xy0000''\<rparr>)
      = (Inr False, ?w\<lparr>stdout :=
          ''0013status=success'' @ [CHR 0x0A] @ ''0000'' @ ''0008abcd'' @ ''0000'' @ ''0000''\<rparr>)"
    by (simp add: process_request_def partition_at_def read_headers.simps dispatch_def
        smudge_cdc_def read_payload.simps packet_eval path_eval Let_def)
  from 1 2 show ?thesis by simp
qed

subsection \<open>Decoding what was encoded\<close>

lemma wf_codepoint_shape: "wf_codepoint u \<Longrightarrow> unit_shape u"
proof -
  assume w: "wf_codepoint u"
  consider "u = []" | a where "u = [a]" | a b where "u = [a, b]" | a b c where "u = [a, b, c]"
    | a b c d where "u = [a, b, c, d]" | a b c d e r where "u = a # b # c # d # e # r"
    by (cases u rule: list.exhaust; (cases "tl u"; (cases "tl (tl u)"; (cases "tl (tl (tl u))";
        (cases "tl (tl (tl (tl u)))")?)?)?)?) auto
  then show ?thesis
    using w by cases (auto simp add: wf_codepoint_def unit_shape_def is_cont_def)
qed

lemma chars_of_conts:
  assumes "list_all unit_shape s" "chars_of (concat s) = s"
  shows "cs \<noteq> [] \<Longrightarrow> list_all is_cont cs \<Longrightarrow> chars_of (cs @ concat s) = cs # s"
proof (induction cs)
  case Nil
  then show ?case by simp
next
  case (Cons k cs)
  show ?case
  proof (cases "cs = []")
    case True
    with Cons.prems assms show ?thesis
      by (cases s) (auto simp add: unit_shape_def)
  next
    case False
    with Cons have "chars_of (cs @ concat s) = cs # s" by simp
    with False Cons.prems show ?thesis by (cases cs) auto
  qed
qed

lemma chars_of_concat: "list_all unit_shape s \<Longrightarrow> chars_of (concat s) = s"
proof (induction s)
  case Nil
  then show ?case by simp
next
  case (Cons u s)
  then have ih: "chars_of (concat s) = s" and sh: "list_all unit_shape s" and u: "unit_shape u"
    by simp_all
  from u obtain c cs where uc: "u = c # cs" "\<not> is_cont c" "list_all is_cont cs"
    by (cases u) (auto simp add: unit_shape_def)
  show ?case
  proof (cases "cs = []")
    case True
    with uc ih sh show ?thesis by (cases s) (auto simp add: unit_shape_def)
  next
    case False
    then have "chars_of (cs @ concat s) = cs # s" using uc(3) by (intro chars_of_conts [OF sh ih])
    with False uc show ?thesis by (cases cs) auto
  qed
qed

lemma decode_wf: "decode b = Inr s \<Longrightarrow> list_all wf_codepoint s"
  by (auto simp add: decode_def split: if_splits)

lemma decode_encode: "list_all wf_codepoint s \<Longrightarrow> decode (encode s) = Inr s"
proof -
  assume w: "list_all wf_codepoint s"
  then have "list_all unit_shape s" by (induction s) (auto intro: wf_codepoint_shape)
  then have "chars_of (concat s) = s" by (rule chars_of_concat)
  with w show ?thesis by (simp add: decode_def encode_def)
qed


subsection \<open>Newlines and lines\<close>

lemma linebreak_NL: "is_linebreak NL"
  by (simp add: is_linebreak_def NL_def byte_def)

lemma linebreak_CR: "is_linebreak [CHR 0x0D]"
  by (simp add: is_linebreak_def byte_def)

lemma CR_not_NL: "[CHR 0x0D] \<noteq> NL"
  by (simp add: NL_def)

lemma wf_NL: "wf_codepoint NL"
  by (simp add: wf_codepoint_def NL_def byte_def)

lemma whitespace_NL: "is_whitespace NL"
  by (simp add: is_whitespace_def NL_def byte_def)

lemma nl_only_CR_free: "nl_only t \<Longrightarrow> CR_free t"
  using linebreak_CR CR_not_NL by (auto simp add: nl_only_def CR_free_def)

lemma universal_newlines_id: "CR_free t \<Longrightarrow> universal_newlines t = t"
  by (induction t rule: universal_newlines.induct) (auto simp add: CR_free_def)

lemma universal_newlines_set: "set (universal_newlines t) \<subseteq> insert NL (set t)"
  by (induction t rule: universal_newlines.induct) auto

lemma read_text_encode:
  assumes "list_all wf_codepoint t" "CR_free t"
  shows "read_text (encode t) = Inr t"
  using assms by (simp add: read_text_def decode_encode universal_newlines_id)

lemma read_text_wf:
  assumes "read_text b = Inr t"
  shows "list_all wf_codepoint t"
proof -
  from assms obtain s where s: "decode b = Inr s" "t = universal_newlines s"
    by (auto simp add: read_text_def split: sum.splits)
  from s(1) have "list_all wf_codepoint s" by (rule decode_wf)
  with universal_newlines_set [of s] wf_NL show ?thesis
    unfolding s(2) list_all_iff by blast
qed

lemma splitlines_from_set:
  "l \<in> set (splitlines_from cur t) \<Longrightarrow>
   set l \<subseteq> set cur \<union> {u \<in> set t. \<not> is_linebreak u}"
  by (induction cur t rule: splitlines_from.induct) (auto split: if_splits)

lemma splitlines_no_linebreak:
  "l \<in> set (splitlines t) \<Longrightarrow> u \<in> set l \<Longrightarrow> \<not> is_linebreak u"
  using splitlines_from_set [of l "[]" t] by (auto simp add: splitlines_def)

lemma splitlines_set: "l \<in> set (splitlines t) \<Longrightarrow> set l \<subseteq> set t"
  using splitlines_from_set [of l "[]" t] by (auto simp add: splitlines_def)

lemma splitlines_from_sublist:
  "l \<in> set (splitlines_from cur t) \<Longrightarrow> sublist l (cur @ t)"
proof (induction cur t rule: splitlines_from.induct)
  case (1 cur)
  then show ?case by (auto split: if_splits)
next
  case (2 cur u)
  then show ?case by (auto split: if_splits)
next
  case (3 cur u v us)
  show ?case
  proof (cases "u = [CHR 0x0D] \<and> v = [CHR 0x0A]")
    case True
    with 3 have "l = cur \<or> sublist l us" by auto
    then show ?thesis
    proof
      assume "l = cur" then show ?thesis by simp
    next
      assume "sublist l us"
      moreover have "sublist us ((cur @ [u, v]) @ us)" by (rule sublist_append_leftI)
      ultimately have "sublist l ((cur @ [u, v]) @ us)" by (rule sublist_order.order.trans)
      then show ?thesis by simp
    qed
  next
    case False
    show ?thesis
    proof (cases "is_linebreak u")
      case True
      with False 3 have "l = cur \<or> sublist l (v # us)" by auto
      then show ?thesis
      proof
        assume "l = cur" then show ?thesis by simp
      next
        assume "sublist l (v # us)"
        moreover have "sublist (v # us) ((cur @ [u]) @ v # us)" by (rule sublist_append_leftI)
        ultimately have "sublist l ((cur @ [u]) @ v # us)" by (rule sublist_order.order.trans)
        then show ?thesis by simp
      qed
    next
      case n: False
      with False 3 show ?thesis by auto
    qed
  qed
qed

lemma splitlines_sublist: "l \<in> set (splitlines t) \<Longrightarrow> sublist l t"
  using splitlines_from_sublist [of l "[]" t] by (simp add: splitlines_def)

lemma relines_from:
  "nl_only t \<Longrightarrow>
   concat (map (\<lambda>l. l @ [NL]) (splitlines_from cur t)) =
     (if cur @ t = [] then [] else if t \<noteq> [] \<and> last t = NL then cur @ t else cur @ t @ [NL])"
proof (induction cur t rule: splitlines_from.induct)
  case (1 cur)
  then show ?case by simp
next
  case (2 cur u)
  then show ?case using linebreak_NL by (auto simp add: nl_only_def)
next
  case (3 cur u v us)
  from "3.prems" have u: "is_linebreak u \<longrightarrow> u = NL" and t: "nl_only (v # us)"
    by (simp_all add: nl_only_def)
  from u linebreak_CR CR_not_NL have ncr: "u \<noteq> [CHR 0x0D]" by auto
  then have n: "\<not> (u = [CHR 0x0D] \<and> v = [CHR 0x0A])" by simp
  show ?case
  proof (cases "is_linebreak u")
    case True
    with u have "u = NL" by simp
    with True ncr "3.IH"(2) [OF n True t] show ?thesis by simp
  next
    case False
    with linebreak_NL have "u \<noteq> NL" by auto
    with False ncr "3.IH"(3) [OF n False t] show ?thesis by simp
  qed
qed

lemma relines:
  "nl_only t \<Longrightarrow>
   concat (map (\<lambda>l. l @ [NL]) (splitlines t)) =
     (if t = [] then [] else if last t = NL then t else t @ [NL])"
  using relines_from [of t "[]"] by (simp add: splitlines_def)

lemma splitlines_from_NL: "splitlines_from cur (NL # b) = cur # splitlines_from [] b"
  using linebreak_NL by (cases b) (simp_all add: NL_def)

lemma splitlines_from_append:
  "nl_only a \<Longrightarrow>
   splitlines_from cur (a @ NL # b) = splitlines_from cur (a @ [NL]) @ splitlines_from [] b"
proof (induction cur a rule: splitlines_from.induct)
  case (1 cur)
  show ?case using splitlines_from_NL [of cur b] splitlines_from_NL [of cur "[]"] by simp
next
  case (2 cur u)
  from 2 have u: "is_linebreak u \<longrightarrow> u = NL" by (simp add: nl_only_def)
  from u linebreak_CR CR_not_NL have ncr: "u \<noteq> [CHR 0x0D]" by auto
  show ?case
  proof (cases "is_linebreak u")
    case True
    with u have "u = NL" by simp
    then show ?thesis
      using splitlines_from_NL [of "[]" b] splitlines_from_NL [of "[]" "[]"]
        splitlines_from_NL [of cur "NL # b"] splitlines_from_NL [of cur "[NL]"]
      by simp
  next
    case False
    with ncr show ?thesis
      using splitlines_from_NL [of "cur @ [u]" b] splitlines_from_NL [of "cur @ [u]" "[]"]
      by simp
  qed
next
  case (3 cur u v us)
  from "3.prems" have u: "is_linebreak u \<longrightarrow> u = NL" and t: "nl_only (v # us)"
    by (simp_all add: nl_only_def)
  from u linebreak_CR CR_not_NL have ncr: "u \<noteq> [CHR 0x0D]" by auto
  then have n: "\<not> (u = [CHR 0x0D] \<and> v = [CHR 0x0A])" by simp
  show ?case
  proof (cases "is_linebreak u")
    case True
    with ncr "3.IH"(2) [OF n True t] show ?thesis by simp
  next
    case False
    with ncr "3.IH"(3) [OF n False t] show ?thesis by simp
  qed
qed

lemma splitlines_line:
  "\<forall>u \<in> set l. \<not> is_linebreak u \<Longrightarrow> splitlines_from cur (l @ [NL]) = [cur @ l]"
proof (induction l arbitrary: cur)
  case Nil
  show ?case using linebreak_NL by simp
next
  case (Cons u l)
  from Cons.prems linebreak_CR have ncr: "u \<noteq> [CHR 0x0D]" by auto
  from Cons have "splitlines_from (cur @ [u]) (l @ [NL]) = [(cur @ [u]) @ l]" by simp
  with Cons.prems ncr show ?case by (cases "l @ [NL]") auto
qed


subsection \<open>\<open>strip\<close>\<close>

lemma strip_sublist: "sublist (strip t) t"
proof -
  have "sublist (dropWhile is_whitespace (rev (dropWhile is_whitespace t)))
      (rev (dropWhile is_whitespace t))" by (rule sublist_dropWhile)
  then have "sublist (strip t) (dropWhile is_whitespace t)"
    by (simp add: strip_def sublist_rev_left)
  moreover have "sublist (dropWhile is_whitespace t) t" by (rule sublist_dropWhile)
  ultimately show ?thesis by (rule sublist_order.order.trans)
qed

lemma strip_set: "set (strip t) \<subseteq> set t"
  using strip_sublist by (rule set_mono_sublist)

lemma strip_Nil: "strip [] = []"
  by (simp add: strip_def)

lemma dropWhile_last: "dropWhile P xs \<noteq> [] \<Longrightarrow> last (dropWhile P xs) = last xs"
  by (induction xs) (auto split: if_splits)

lemma strip_ends:
  assumes "strip t \<noteq> []"
  shows "\<not> is_whitespace (hd (strip t))" "\<not> is_whitespace (last (strip t))"
proof -
  let ?y = "dropWhile is_whitespace t"
  let ?z = "dropWhile is_whitespace (rev ?y)"
  from assms have z: "?z \<noteq> []" by (simp add: strip_def)
  have y: "?y \<noteq> []"
  proof
    assume e: "?y = []"
    have "?z = []" unfolding e by simp
    with z show False by simp
  qed
  have "last (strip t) = hd ?z" using z by (simp add: strip_def last_rev)
  moreover have "\<not> is_whitespace (hd ?z)" using z by (rule hd_dropWhile)
  ultimately show "\<not> is_whitespace (last (strip t))" by simp
  have "hd (strip t) = last ?z" using z by (simp add: strip_def hd_rev)
  also have "\<dots> = last (rev ?y)" using z by (rule dropWhile_last)
  also have "\<dots> = hd ?y" using y by (simp add: last_rev)
  finally show "\<not> is_whitespace (hd (strip t))" using hd_dropWhile [OF y] by simp
qed

lemma strip_line:
  assumes "d \<noteq> []" "\<not> is_whitespace (hd d)" "\<not> is_whitespace (last d)"
  shows "strip (d @ [NL]) = d"
proof -
  from assms(1,2) have 1: "dropWhile is_whitespace (d @ [NL]) = d @ [NL]"
    by (cases d) simp_all
  from assms(1,3) have 2: "dropWhile is_whitespace (rev d) = rev d"
    by (cases "rev d") (simp_all add: last_rev [symmetric] hd_rev)
  show ?thesis by (simp add: strip_def 1 2 whitespace_NL)
qed

lemma strip_strip_line: "strip t \<noteq> [] \<Longrightarrow> strip (strip t @ [NL]) = strip t"
  by (rule strip_line) (simp_all add: strip_ends)

subsection \<open>A text inside the lines of another\<close>

lemma sublist_across:
  assumes "sublist x (a @ c # b)" "c \<notin> set x"
  shows "sublist x a \<or> sublist x b"
proof -
  from assms(1) consider "sublist x a" | "sublist x (c # b)"
    | x1 x2 where "x = x1 @ x2" "suffix x1 a" "prefix x2 (c # b)"
    unfolding sublist_append by blast
  then show ?thesis
  proof cases
    case 1
    then show ?thesis by simp
  next
    case 2
    then consider "prefix x (c # b)" | "sublist x b" unfolding sublist_Cons_right by blast
    then show ?thesis
    proof cases
      case 1
      with assms(2) have "x = []" by (cases x) auto
      then show ?thesis by simp
    next
      case 2
      then show ?thesis by simp
    qed
  next
    case 3
    from 3(1,3) assms(2) have "x2 = []" by (cases x2) auto
    with 3 show ?thesis by auto
  qed
qed

lemma sublist_of_lines:
  assumes "sublist x (concat (map (\<lambda>l. l @ [c]) ls))" "c \<notin> set x" "x \<noteq> []"
  shows "\<exists>l \<in> set ls. sublist x l"
  using assms(1)
proof (induction ls)
  case Nil
  with assms(3) show ?case by simp
next
  case (Cons l ls)
  then have "sublist x (l @ c # concat (map (\<lambda>l. l @ [c]) ls))" by simp
  then have "sublist x l \<or> sublist x (concat (map (\<lambda>l. l @ [c]) ls))"
    using assms(2) by (rule sublist_across)
  with Cons.IH show ?case by auto
qed


subsection \<open>The attribute file without and with the reserved lines\<close>

lemma splitlines_relined:
  "\<forall>l \<in> set ls. \<forall>u \<in> set l. \<not> is_linebreak u \<Longrightarrow>
   splitlines_from [] (concat (map (\<lambda>l. l @ [NL]) ls)) = ls"
proof (induction ls)
  case Nil
  show ?case by simp
next
  case (Cons l ls)
  then have l: "\<forall>u \<in> set l. \<not> is_linebreak u" by simp
  then have "nl_only l" by (simp add: nl_only_def)
  then have "splitlines_from [] (l @ NL # concat (map (\<lambda>l. l @ [NL]) ls))
      = splitlines_from [] (l @ [NL]) @ splitlines_from [] (concat (map (\<lambda>l. l @ [NL]) ls))"
    by (rule splitlines_from_append)
  with Cons splitlines_line [OF l, of "[]"] show ?case by simp
qed

lemma reserved_props:
  "NL \<notin> set cdcline" "cdcline \<noteq> []" "NL \<notin> set cdcattr" "cdcattr \<noteq> []"
  "\<forall>u \<in> set cdcline. \<not> is_linebreak u" "\<forall>u \<in> set cdcattr. \<not> is_linebreak u"
  "list_all wf_codepoint cdcline" "list_all wf_codepoint cdcattr"
  by (simp_all add: cdcline_def cdcattr_def lit_def NL_def is_linebreak_def wf_codepoint_def
      byte_def)

lemma user_lines_props:
  assumes "list_all wf_codepoint data"
  shows "list_all wf_codepoint (user_lines data)"
    and "nl_only (user_lines data)"
    and "splitlines (user_lines data)
      = filter (\<lambda>line. \<not> sublist cdcline line \<and> \<not> sublist cdcattr line) (splitlines data)"
    and "user_lines (user_lines data) = user_lines data"
proof -
  let ?keep = "\<lambda>line. \<not> sublist cdcline line \<and> \<not> sublist cdcattr line"
  let ?ls = "filter ?keep (splitlines data)"
  have nb: "\<forall>l \<in> set ?ls. \<forall>u \<in> set l. \<not> is_linebreak u"
    using splitlines_no_linebreak by auto
  have sub: "\<forall>l \<in> set ?ls. set l \<subseteq> set data"
    using splitlines_set by auto
  have el: "set (user_lines data) \<subseteq> insert NL (\<Union>l \<in> set ?ls. set l)"
    by (auto simp add: user_lines_def)
  show "list_all wf_codepoint (user_lines data)"
    unfolding list_all_iff
  proof
    fix u assume "u \<in> set (user_lines data)"
    with el have "u = NL \<or> (\<exists>l \<in> set ?ls. u \<in> set l)" by auto
    with sub have "u = NL \<or> u \<in> set data" by auto
    with assms wf_NL show "wf_codepoint u" by (auto simp add: list_all_iff)
  qed
  show "nl_only (user_lines data)"
    unfolding nl_only_def
  proof (intro ballI impI)
    fix u assume "u \<in> set (user_lines data)" "is_linebreak u"
    with el nb show "u = NL" by auto
  qed
  show s: "splitlines (user_lines data) = ?ls"
    using splitlines_relined [OF nb] by (simp add: splitlines_def user_lines_def)
  show "user_lines (user_lines data) = user_lines data"
    by (simp add: user_lines_def [of "user_lines data"] s) (simp add: user_lines_def)
qed

lemma with_reserved_lines:
  assumes "nl_only t"
    and "\<forall>l \<in> set (splitlines t). \<not> sublist cdcline l \<and> \<not> sublist cdcattr l"
  shows "user_lines (with_reserved (strip t)) = (if strip t \<noteq> [] then strip t @ [NL] else [])"
proof -
  let ?keep = "\<lambda>line. \<not> sublist cdcline line \<and> \<not> sublist cdcattr line"
  let ?d = "strip t"
  have two: "splitlines_from [] (cdcline @ NL # cdcattr @ [NL]) = [cdcline, cdcattr]"
  proof -
    have "nl_only cdcline" using reserved_props(5) by (simp add: nl_only_def)
    then have "splitlines_from [] (cdcline @ NL # cdcattr @ [NL])
        = splitlines_from [] (cdcline @ [NL]) @ splitlines_from [] (cdcattr @ [NL])"
      by (rule splitlines_from_append)
    then show ?thesis
      using splitlines_line [OF reserved_props(5), of "[]"]
        splitlines_line [OF reserved_props(6), of "[]"] by simp
  qed
  have drop: "filter ?keep [cdcline, cdcattr] = []" by simp
  show ?thesis
  proof (cases "?d = []")
    case True
    then show ?thesis
      by (simp add: user_lines_def with_reserved_def splitlines_def two)
  next
    case False
    have nd: "nl_only ?d" using assms(1) strip_set [of t] by (auto simp add: nl_only_def)
    then have nd': "nl_only (?d @ [NL])" by (simp add: nl_only_def)
    have sp: "splitlines_from [] (?d @ NL # cdcline @ NL # cdcattr @ [NL])
        = splitlines_from [] (?d @ [NL]) @ [cdcline, cdcattr]"
      using splitlines_from_append [OF nd, of "[]" "cdcline @ NL # cdcattr @ [NL]"] two by simp
    have keep: "?keep l" if l: "l \<in> set (splitlines_from [] (?d @ [NL]))" for l
    proof -
      have in_t: "\<not> sublist x l" if x: "NL \<notin> set x" "x \<noteq> []"
        "\<forall>l \<in> set (splitlines t). \<not> sublist x l" for x
      proof
        assume "sublist x l"
        moreover from l have "sublist l (?d @ [NL])"
          using splitlines_from_sublist [of l "[]" "?d @ [NL]"] by simp
        ultimately have "sublist x (?d @ [NL])" by (rule sublist_order.order.trans)
        then have "sublist x ?d \<or> sublist x []" using x(1) by (rule sublist_across)
        with x(2) have "sublist x ?d" by auto
        then have xt: "sublist x t" using strip_sublist by (rule sublist_order.order.trans)
        have "sublist t (concat (map (\<lambda>l. l @ [NL]) (splitlines t)))"
          using relines [OF assms(1)] by (auto split: if_splits)
        with xt have "sublist x (concat (map (\<lambda>l. l @ [NL]) (splitlines t)))"
          by (rule sublist_order.order.trans)
        then have "\<exists>l \<in> set (splitlines t). sublist x l"
          using x(1,2) by (rule sublist_of_lines)
        with x(3) show False by blast
      qed
      from assms(2) show ?thesis using in_t [of cdcline] in_t [of cdcattr] reserved_props(1-4)
        by blast
    qed
    then have "filter ?keep (splitlines_from [] (?d @ [NL])) = splitlines_from [] (?d @ [NL])"
      by (intro filter_True) blast
    moreover have "concat (map (\<lambda>l. l @ [NL]) (splitlines_from [] (?d @ [NL]))) = ?d @ [NL]"
      using relines_from [OF nd', of "[]"] by simp
    ultimately show ?thesis
      using False by (simp add: user_lines_def with_reserved_def splitlines_def sp)
  qed
qed


subsection \<open>\<open>install\<close> twice\<close>

lemma config_unset_rec:
  "config_unset k \<lparr>attributes = a, config = c\<rparr>
     = \<lparr>attributes = a, config = c(k := if length (c k) = 1 then [] else c k)\<rparr>"
  by (simp add: config_unset_def)

lemma config_set_rec:
  "config_set k v \<lparr>attributes = a, config = c\<rparr>
     = (if length (c k) \<le> 1 then Inr \<lparr>attributes = a, config = c(k := [v])\<rparr>
        else Inl CalledProcessError)"
  by (simp add: config_set_def)

lemma touch_rec:
  "touch \<lparr>attributes = a, config = c\<rparr>
     = \<lparr>attributes = Some (case a of None \<Rightarrow> [] | Some b \<Rightarrow> b), config = c\<rparr>"
  by (cases a) (simp_all add: touch_def)

lemma read_attributes_rec: "read_attributes \<lparr>attributes = Some b, config = c\<rparr> = read_text b"
  by (simp add: read_attributes_def)

lemma write_attributes_rec:
  "write_attributes d \<lparr>attributes = a, config = c\<rparr> = \<lparr>attributes = Some (encode d), config = c\<rparr>"
  by (simp add: write_attributes_def)

lemma do_remove_rec:
  "do_remove \<lparr>attributes = a, config = c\<rparr> =
     (case read_text (case a of None \<Rightarrow> [] | Some b \<Rightarrow> b) of
        Inl e \<Rightarrow> (Inl e, \<lparr>attributes = Some (case a of None \<Rightarrow> [] | Some b \<Rightarrow> b),
                             config = unset_keys c\<rparr>)
      | Inr data \<Rightarrow> (Inr (), \<lparr>attributes = Some (encode (user_lines data)),
                                 config = unset_keys c\<rparr>))"
proof -
  have "config_unset ''filter.git_fastcdc.required''
      (config_unset ''filter.git_fastcdc.process'' \<lparr>attributes = a, config = c\<rparr>)
      = \<lparr>attributes = a, config = unset_keys c\<rparr>"
    by (simp add: config_unset_rec fun_eq_iff unset_keys_def)
  then show ?thesis
    by (simp add: do_remove_def touch_rec read_attributes_rec write_attributes_rec
        user_lines_def Let_def split: sum.splits)
qed

lemma install_rec:
  "install \<lparr>attributes = a, config = c\<rparr> =
     (case read_text (case a of None \<Rightarrow> [] | Some b \<Rightarrow> b) of
        Inl e \<Rightarrow> (Inl e, \<lparr>attributes = Some (case a of None \<Rightarrow> [] | Some b \<Rightarrow> b),
                             config = unset_keys c\<rparr>)
      | Inr data \<Rightarrow>
          if 1 < length (unset_keys c ''filter.git_fastcdc.process'')
          then (Inl CalledProcessError,
                \<lparr>attributes = Some (encode (user_lines data)), config = unset_keys c\<rparr>)
          else if 1 < length (unset_keys c ''filter.git_fastcdc.required'')
          then (Inl CalledProcessError,
                \<lparr>attributes = Some (encode (user_lines data)),
                  config = (unset_keys c)(''filter.git_fastcdc.process'' := [''git-fastcdc process''])\<rparr>)
          else (case read_text (encode (user_lines data)) of
                  Inl e \<Rightarrow>
                    (Inl e, \<lparr>attributes = Some (encode (user_lines data)),
                       config = (unset_keys c)
                         (''filter.git_fastcdc.process'' := [''git-fastcdc process''],
                          ''filter.git_fastcdc.required'' := [''true''])\<rparr>)
                | Inr text \<Rightarrow>
                    (Inr (), \<lparr>attributes = Some (encode (with_reserved (strip text))),
                       config = (unset_keys c)
                         (''filter.git_fastcdc.process'' := [''git-fastcdc process''],
                          ''filter.git_fastcdc.required'' := [''true''])\<rparr>)))"
  by (simp add: install_def do_remove_rec config_set_rec touch_rec read_attributes_rec
      write_attributes_rec with_reserved_def Let_def not_le split: sum.splits)


lemma unset_keys_props:
  "length (unset_keys c ''filter.git_fastcdc.process'') \<noteq> 1"
  "length (unset_keys c ''filter.git_fastcdc.required'') \<noteq> 1"
  "unset_keys (unset_keys c) = unset_keys c"
  by (simp_all add: unset_keys_def fun_eq_iff)

lemma unset_keys_set:
  assumes "u = unset_keys c"
  shows "length (u ''filter.git_fastcdc.process'') \<le> 1 \<Longrightarrow>
      unset_keys (u(''filter.git_fastcdc.process'' := [v])) = u"
    and "length (u ''filter.git_fastcdc.process'') \<le> 1 \<Longrightarrow>
      length (u ''filter.git_fastcdc.required'') \<le> 1 \<Longrightarrow>
      unset_keys (u(''filter.git_fastcdc.process'' := [v], ''filter.git_fastcdc.required'' := [v']))
        = u"
proof -
  have n: "length (u ''filter.git_fastcdc.process'') \<noteq> 1"
    "length (u ''filter.git_fastcdc.required'') \<noteq> 1"
    unfolding assms by (rule unset_keys_props)+
  have uu: "unset_keys u = u" unfolding assms by (rule unset_keys_props)
  {
    assume "length (u ''filter.git_fastcdc.process'') \<le> 1"
    with n have p: "u ''filter.git_fastcdc.process'' = []" by (cases "u ''filter.git_fastcdc.process''") auto
    show "unset_keys (u(''filter.git_fastcdc.process'' := [v])) = u"
    proof (rule ext)
      fix k show "unset_keys (u(''filter.git_fastcdc.process'' := [v])) k = u k"
        using p n fun_cong [OF uu, of k] by (auto simp add: unset_keys_def split: if_splits)
    qed
    assume "length (u ''filter.git_fastcdc.required'') \<le> 1"
    with n have r: "u ''filter.git_fastcdc.required'' = []" by (cases "u ''filter.git_fastcdc.required''") auto
    show "unset_keys (u(''filter.git_fastcdc.process'' := [v], ''filter.git_fastcdc.required'' := [v'])) = u"
    proof (rule ext)
      fix k show "unset_keys (u(''filter.git_fastcdc.process'' := [v],
          ''filter.git_fastcdc.required'' := [v'])) k = u k"
        using p r n fun_cong [OF uu, of k] by (auto simp add: unset_keys_def split: if_splits)
    qed
  }
qed

lemma with_reserved_props:
  assumes "list_all wf_codepoint d" "nl_only d"
  shows "list_all wf_codepoint (with_reserved d)" "nl_only (with_reserved d)"
  using assms reserved_props(5-8) wf_NL
  by (auto simp add: with_reserved_def nl_only_def list_all_iff)

lemma strip_props:
  assumes "list_all wf_codepoint t" "nl_only t"
  shows "list_all wf_codepoint (strip t)" "nl_only (strip t)"
  using assms strip_set [of t] by (auto simp add: nl_only_def list_all_iff)

text \<open>
  Claim C5. From every state of the attribute file (absent, or with any contents) and
  of the local configuration, \<open>install\<close> run on the state that \<open>install\<close> leaves ends as
  the first run did and leaves that state as it is: the contents of \<open>.gitattributes\<close>
  and the values of every configuration key, \<open>filter.git_fastcdc.process\<close> and
  \<open>filter.git_fastcdc.required\<close> among them, are those after the first run. This holds
  also for the runs that end with an exception.
\<close>

theorem install_idempotent:
  "install (snd (install s)) = install s"
proof -
  obtain a c where s: "s = \<lparr>attributes = a, config = c\<rparr>" by (cases s)
  define b where "b = (case a of None \<Rightarrow> [] | Some x \<Rightarrow> x)"
  define u where "u = unset_keys c"
  note ir = install_rec [of a c, folded b_def u_def]
  have uu: "unset_keys u = u" unfolding u_def by (rule unset_keys_props)
  show ?thesis
  proof (cases "read_text b")
    case (Inl e)
    then show ?thesis
      unfolding s by (simp add: ir) (simp add: install_rec Inl uu)
  next
    case (Inr data)
    define J where "J = user_lines data"
    from Inr have wd: "list_all wf_codepoint data" by (rule read_text_wf)
    note p = user_lines_props [OF wd, folded J_def]
    have rJ: "read_text (encode J) = Inr J"
      using p(1) nl_only_CR_free [OF p(2)] by (rule read_text_encode)
    show ?thesis
    proof (cases "1 < length (u ''filter.git_fastcdc.process'')")
      case True
      then show ?thesis
        unfolding s by (simp add: ir Inr) (simp add: install_rec rJ uu p(4) J_def [symmetric])
    next
      case P: False
      then have pl: "length (u ''filter.git_fastcdc.process'') \<le> 1" by simp
      note u1 = unset_keys_set(1) [OF u_def pl]
      show ?thesis
      proof (cases "1 < length (u ''filter.git_fastcdc.required'')")
        case True
        with P show ?thesis
          unfolding s
          by (simp add: ir Inr) (simp add: install_rec rJ u1 p(4) J_def [symmetric])
      next
        case R: False
        then have rl: "length (u ''filter.git_fastcdc.required'') \<le> 1" by simp
        note u2 = unset_keys_set(2) [OF u_def pl rl]
        define d where "d = strip J"
        note sp = strip_props [OF p(1,2), folded d_def]
        note wp = with_reserved_props [OF sp]
        have rX: "read_text (encode (with_reserved d)) = Inr (with_reserved d)"
          using wp(1) nl_only_CR_free [OF wp(2)] by (rule read_text_encode)
        have keep: "\<forall>l \<in> set (splitlines J). \<not> sublist cdcline l \<and> \<not> sublist cdcattr l"
          unfolding p(3) by simp
        have uX: "user_lines (with_reserved d) = (if d \<noteq> [] then d @ [NL] else [])"
          unfolding d_def using p(2) keep by (rule with_reserved_lines)
        have wl: "list_all wf_codepoint (if d \<noteq> [] then d @ [NL] else [])"
          "nl_only (if d \<noteq> [] then d @ [NL] else [])"
          using sp wf_NL by (auto simp add: nl_only_def)
        have rL: "read_text (encode (if d \<noteq> [] then d @ [NL] else []))
            = Inr (if d \<noteq> [] then d @ [NL] else [])"
          using wl(1) nl_only_CR_free [OF wl(2)] by (rule read_text_encode)
        have st: "strip (if d \<noteq> [] then d @ [NL] else []) = d"
          unfolding d_def using strip_strip_line [of J] by (simp add: strip_Nil)
        have 1: "install s = (Inr (), \<lparr>attributes = Some (encode (with_reserved d)),
            config = u(''filter.git_fastcdc.process'' := [''git-fastcdc process''],
                       ''filter.git_fastcdc.required'' := [''true''])\<rparr>)"
          unfolding s using P R by (simp add: ir Inr J_def [symmetric] rJ d_def)
        have 2: "install \<lparr>attributes = Some (encode (with_reserved d)),
            config = u(''filter.git_fastcdc.process'' := [''git-fastcdc process''],
                       ''filter.git_fastcdc.required'' := [''true''])\<rparr>
          = (Inr (), \<lparr>attributes = Some (encode (with_reserved d)),
            config = u(''filter.git_fastcdc.process'' := [''git-fastcdc process''],
                       ''filter.git_fastcdc.required'' := [''true''])\<rparr>)"
          using P R by (simp add: install_rec rX u2 uX rL st)
        from 1 2 show ?thesis by simp
      qed
    qed
  qed
qed

theorem install_idempotent_witness:
  "install \<lparr>attributes = Some (''*.bin filter=git_fastcdc'' @ [CHR 0x0A]), config = (\<lambda>k. [])\<rparr>
     = (Inr (),
        \<lparr>attributes = Some (''*.bin filter=git_fastcdc'' @ [CHR 0x0A]
            @ ''/.cdc/**/*.cdc binary filter=git_fastcdc'' @ [CHR 0x0A]
            @ ''/.gitattributes text -binary -filter'' @ [CHR 0x0A]),
          config = (\<lambda>k. [])(''filter.git_fastcdc.process'' := [''git-fastcdc process''],
                              ''filter.git_fastcdc.required'' := [''true''])\<rparr>)
   \<and> install
        \<lparr>attributes = Some (''*.bin filter=git_fastcdc'' @ [CHR 0x0A]
            @ ''/.cdc/**/*.cdc binary filter=git_fastcdc'' @ [CHR 0x0A]
            @ ''/.gitattributes text -binary -filter'' @ [CHR 0x0A]),
          config = (\<lambda>k. [])(''filter.git_fastcdc.process'' := [''git-fastcdc process''],
                              ''filter.git_fastcdc.required'' := [''true''])\<rparr>
     = (Inr (),
        \<lparr>attributes = Some (''*.bin filter=git_fastcdc'' @ [CHR 0x0A]
            @ ''/.cdc/**/*.cdc binary filter=git_fastcdc'' @ [CHR 0x0A]
            @ ''/.gitattributes text -binary -filter'' @ [CHR 0x0A]),
          config = (\<lambda>k. [])(''filter.git_fastcdc.process'' := [''git-fastcdc process''],
                              ''filter.git_fastcdc.required'' := [''true''])\<rparr>)"
proof -
  let ?s = "\<lparr>attributes = Some (''*.bin filter=git_fastcdc'' @ [CHR 0x0A]), config = (\<lambda>k. [])\<rparr>"
  have t: "read_text (''*.bin filter=git_fastcdc'' @ [CHR 0x0A])
      = Inr (lit ''*.bin filter=git_fastcdc'' @ [NL])"
    by (simp add: read_text_def decode_def wf_codepoint_def byte_def is_cont_def lit_def NL_def)
  have l: "splitlines (lit ''*.bin filter=git_fastcdc'' @ [NL]) = [lit ''*.bin filter=git_fastcdc'']"
    unfolding splitlines_def
    by (rule splitlines_line [of _ "[]", simplified])
      (simp add: lit_def is_linebreak_def byte_def)
  have k: "\<not> sublist cdcline (lit ''*.bin filter=git_fastcdc'')"
    "\<not> sublist cdcattr (lit ''*.bin filter=git_fastcdc'')"
    by (auto dest!: sublist_length_le simp add: cdcline_def cdcattr_def lit_def)
  have u: "user_lines (lit ''*.bin filter=git_fastcdc'' @ [NL]) = lit ''*.bin filter=git_fastcdc'' @ [NL]"
    by (simp add: user_lines_def l k)
  have w: "list_all wf_codepoint (lit ''*.bin filter=git_fastcdc'' @ [NL])"
    "CR_free (lit ''*.bin filter=git_fastcdc'' @ [NL])"
    by (simp_all add: lit_def NL_def wf_codepoint_def byte_def CR_free_def)
  have s: "strip (lit ''*.bin filter=git_fastcdc'' @ [NL]) = lit ''*.bin filter=git_fastcdc''"
    by (rule strip_line) (simp_all add: lit_def is_whitespace_def byte_def)
  have e: "encode (with_reserved (lit ''*.bin filter=git_fastcdc''))
      = ''*.bin filter=git_fastcdc'' @ [CHR 0x0A]
            @ ''/.cdc/**/*.cdc binary filter=git_fastcdc'' @ [CHR 0x0A]
            @ ''/.gitattributes text -binary -filter'' @ [CHR 0x0A]"
    by (simp add: with_reserved_def encode_def lit_def NL_def cdcline_def cdcattr_def)
  have 1: "install ?s = (Inr (),
        \<lparr>attributes = Some (encode (with_reserved (lit ''*.bin filter=git_fastcdc''))),
          config = (\<lambda>k. [])(''filter.git_fastcdc.process'' := [''git-fastcdc process''],
                              ''filter.git_fastcdc.required'' := [''true''])\<rparr>)"
    using t by (simp add: install_rec u read_text_encode [OF w] s unset_keys_def)
  from 1 install_idempotent [of ?s] show ?thesis unfolding e by simp
qed

end
